theory Spec2Isabelle
  imports Main "HOL-Library.Sublist" "HOL-Library.Monad_Syntax"
begin


section \<open>Arrays and faults\<close>

text \<open>
  A JavaScript array is a list. A read \<open>arr[k]\<close> is modelled by \<open>at\<close>, which takes the
  index as an integer (so that \<open>i - 1\<close> at \<open>i = 0\<close> is \<open>-1\<close>, as in the source) and
  returns \<open>None\<close> when the index is outside \<open>0 .. length - 1\<close>. Functions of the engine
  that compute indices return an \<open>option\<close>: \<open>None\<close> is a read or a write outside the
  array, \<open>Some r\<close> is a normal return with result \<open>r\<close>.
\<close>

definition at :: "'a list \<Rightarrow> int \<Rightarrow> 'a option" where
  "at xs k = (if 0 \<le> k \<and> k < int (length xs) then Some (xs ! nat k) else None)"

definition at2 :: "'a list list \<Rightarrow> int \<Rightarrow> int \<Rightarrow> 'a option" where
  "at2 dp i j = do { row \<leftarrow> at dp i; at row j }"

definition put2 :: "'a list list \<Rightarrow> int \<Rightarrow> int \<Rightarrow> 'a \<Rightarrow> 'a list list option" where
  "put2 dp i j v = do {
     row \<leftarrow> at dp i;
     _ \<leftarrow> at row j;
     Some (dp[nat i := row[nat j := v]])
   }"

text \<open>A counting loop \<open>for (x of xs) s = f(x, s)\<close> whose body may fault.\<close>

fun for_each :: "('a \<Rightarrow> 's \<Rightarrow> 's option) \<Rightarrow> 'a list \<Rightarrow> 's \<Rightarrow> 's option" where
  "for_each f [] s = Some s"
| "for_each f (x # xs) s = Option.bind (f x s) (for_each f xs)"

section \<open>LCS engine\<close>

text \<open>The string tags \<open>'equal'\<close>, \<open>'unchanged'\<close>, \<open>'added'\<close>, \<open>'removed'\<close>.\<close>

datatype kind = Equal | Unchanged | Added | Removed

text \<open>
  \<open>buildLCSTable\<close>: the table starts as \<open>m + 1\<close> rows of \<open>n + 1\<close> zeros; the two nested
  loops run \<open>i = 1 .. m\<close> and \<open>j = 1 .. n\<close> and assign \<open>dp[i][j]\<close>.
\<close>

definition lcsCell :: "'a list \<Rightarrow> 'a list \<Rightarrow> nat \<Rightarrow> nat \<Rightarrow> nat list list \<Rightarrow> nat list list option" where
  "lcsCell oldArr newArr i j dp = do {
     a \<leftarrow> at oldArr (int i - 1);
     b \<leftarrow> at newArr (int j - 1);
     v \<leftarrow> (if a = b
           then do { x \<leftarrow> at2 dp (int i - 1) (int j - 1); Some (x + 1) }
           else do { x \<leftarrow> at2 dp (int i - 1) (int j); y \<leftarrow> at2 dp (int i) (int j - 1); Some (max x y) });
     put2 dp (int i) (int j) v
   }"

definition buildLCSTable :: "'a list \<Rightarrow> 'a list \<Rightarrow> nat list list option" where
  "buildLCSTable oldArr newArr =
     (let m = length oldArr;
          n = length newArr;
          dp = replicate (m + 1) (replicate (n + 1) 0)
      in for_each (\<lambda>i. for_each (\<lambda>j. lcsCell oldArr newArr i j) [1..<n + 1]) [1..<m + 1] dp)"

text \<open>
  The specification of a table entry: \<open>k\<close> is the length of a longest common subsequence of
  \<open>xs\<close> and \<open>ys\<close> when some common subsequence has length \<open>k\<close> and none is longer.
\<close>

definition is_lcs_length :: "'a list \<Rightarrow> 'a list \<Rightarrow> nat \<Rightarrow> bool" where
  "is_lcs_length xs ys k \<longleftrightarrow>
     (\<exists>zs. subseq zs xs \<and> subseq zs ys \<and> length zs = k) \<and>
     (\<forall>zs. subseq zs xs \<and> subseq zs ys \<longrightarrow> length zs \<le> k)"

text \<open>The recurrence of the dynamic programme, as a function of the two prefix lengths.\<close>

fun lcsLen :: "'a list \<Rightarrow> 'a list \<Rightarrow> nat \<Rightarrow> nat \<Rightarrow> nat" where
  "lcsLen A B 0 j = 0"
| "lcsLen A B (Suc i) 0 = 0"
| "lcsLen A B (Suc i) (Suc j) =
     (if A ! i = B ! j then lcsLen A B i j + 1
      else max (lcsLen A B i (Suc j)) (lcsLen A B (Suc i) j))"

text \<open>The invariant of the two loops: the cells already assigned hold the recurrence's value.\<close>

definition tbl_inv :: "'a list \<Rightarrow> 'a list \<Rightarrow> nat list list \<Rightarrow> nat \<Rightarrow> nat \<Rightarrow> bool" where
  "tbl_inv A B dp i j \<longleftrightarrow>
     length dp = length A + 1 \<and>
     (\<forall>r \<le> length A. length (dp ! r) = length B + 1) \<and>
     (\<forall>r c. r \<le> length A \<and> c \<le> length B \<and> (r = 0 \<or> c = 0 \<or> r < i \<or> (r = i \<and> c < j))
        \<longrightarrow> dp ! r ! c = lcsLen A B r c)"

section \<open>Backtracking\<close>

text \<open>
  \<open>backtrackLCS\<close>: the loop \<open>while (i > 0 || j > 0)\<close> with integer counters; \<open>unshift\<close>
  puts each op at the front of \<open>result\<close>. The tests short-circuit as in the source, so an
  array is read only where the source reads it. \<open>makeOp\<close> is the factory the caller passes.
\<close>

function backtrack_loop ::
  "nat list list \<Rightarrow> 'a list \<Rightarrow> 'a list \<Rightarrow> (kind \<Rightarrow> int option \<Rightarrow> int option \<Rightarrow> 'a \<Rightarrow> 'r)
     \<Rightarrow> int \<Rightarrow> int \<Rightarrow> 'r list \<Rightarrow> 'r list option" where
  "backtrack_loop dp oldArr newArr makeOp i j result =
     (if i > 0 \<or> j > 0 then do {
        eq \<leftarrow> (if i > 0 \<and> j > 0
               then do { a \<leftarrow> at oldArr (i - 1); b \<leftarrow> at newArr (j - 1); Some (a = b) }
               else Some False);
        if eq then do {
          a \<leftarrow> at oldArr (i - 1);
          backtrack_loop dp oldArr newArr makeOp (i - 1) (j - 1) (makeOp Equal (Some i) (Some j) a # result)
        } else do {
          pick \<leftarrow> (if j > 0
                   then (if i = 0 then Some True
                         else do { x \<leftarrow> at2 dp i (j - 1); y \<leftarrow> at2 dp (i - 1) j; Some (x \<ge> y) })
                   else Some False);
          if pick then do {
            b \<leftarrow> at newArr (j - 1);
            backtrack_loop dp oldArr newArr makeOp i (j - 1) (makeOp Added None (Some j) b # result)
          } else do {
            a \<leftarrow> at oldArr (i - 1);
            backtrack_loop dp oldArr newArr makeOp (i - 1) j (makeOp Removed (Some i) None a # result)
          }
        }
      } else Some result)"
  by pat_completeness auto
termination
  apply (relation "measure (\<lambda>(dp, oldArr, newArr, makeOp, i, j, result). nat i + nat j)")
  apply (auto simp: at_def split: if_splits)
  done

definition backtrackLCS ::
  "nat list list \<Rightarrow> 'a list \<Rightarrow> 'a list \<Rightarrow> (kind \<Rightarrow> int option \<Rightarrow> int option \<Rightarrow> 'a \<Rightarrow> 'r) \<Rightarrow> 'r list option" where
  "backtrackLCS dp oldArr newArr makeOp =
     backtrack_loop dp oldArr newArr makeOp (int (length oldArr)) (int (length newArr)) []"

text \<open>
  The walk as specified, from \<open>(i, j)\<close> down to \<open>(0, 0)\<close>, in the order in which the ops
  are emitted: equal when both indices are positive and the elements are equal; else added
  when \<open>j > 0\<close> and \<open>i = 0\<close> or \<open>table[i][j-1] \<ge> table[i-1][j]\<close>; else removed.
\<close>

function walk ::
  "nat list list \<Rightarrow> 'a list \<Rightarrow> 'a list \<Rightarrow> (kind \<Rightarrow> int option \<Rightarrow> int option \<Rightarrow> 'a \<Rightarrow> 'r)
     \<Rightarrow> nat \<Rightarrow> nat \<Rightarrow> 'r list" where
  "walk table seqA seqB emit i j =
     (if i = 0 \<and> j = 0 then []
      else if i > 0 \<and> j > 0 \<and> seqA ! (i - 1) = seqB ! (j - 1)
        then emit Equal (Some (int i)) (Some (int j)) (seqA ! (i - 1)) # walk table seqA seqB emit (i - 1) (j - 1)
      else if j > 0 \<and> (i = 0 \<or> table ! i ! (j - 1) \<ge> table ! (i - 1) ! j)
        then emit Added None (Some (int j)) (seqB ! (j - 1)) # walk table seqA seqB emit i (j - 1)
      else emit Removed (Some (int i)) None (seqA ! (i - 1)) # walk table seqA seqB emit (i - 1) j)"
  by pat_completeness auto
termination
  by (relation "measure (\<lambda>(table, seqA, seqB, emit, i, j). i + j)") auto

declare backtrack_loop.simps [simp del]
declare walk.simps [simp del]

text \<open>The shape of a table for two sequences: one row more than the first has elements,
  each row one entry longer than the second.\<close>

definition table_shape :: "'a list \<Rightarrow> 'b list \<Rightarrow> nat list list \<Rightarrow> bool" where
  "table_shape A B t \<longleftrightarrow> length t = length A + 1 \<and> (\<forall>r \<le> length A. length (t ! r) = length B + 1)"

section \<open>Strings\<close>

text \<open>
  A string is a list of characters: the code units below 256. \<open>split_on\<close> is
  \<open>String.prototype.split\<close> with a one-character separator: it keeps empty pieces,
  so the empty string gives one empty piece and a trailing separator gives a trailing
  empty piece.
\<close>

fun split_on :: "'a \<Rightarrow> 'a list \<Rightarrow> 'a list list" where
  "split_on sep [] = [[]]"
| "split_on sep (c # cs) =
     (if c = sep then [] # split_on sep cs
      else (case split_on sep cs of [] \<Rightarrow> [[c]] | piece # pieces \<Rightarrow> (c # piece) # pieces))"

text \<open>
  The character classes of the regular expressions, on code units below 256: \<open>\d\<close> is
  \<open>0-9\<close>; \<open>\w\<close> is \<open>A-Z\<close>, \<open>a-z\<close>, \<open>0-9\<close> and the underscore; \<open>\s\<close>, also the set that
  \<open>trim\<close> strips, is tab, line feed, vertical tab, form feed, carriage return, space and
  the no-break space. \<open>toLowerCase\<close> maps \<open>A-Z\<close> and the upper-case letters of the
  Latin-1 block (192 to 222, without the multiplication sign 215) to the letter 32 above.
\<close>

definition code :: "char \<Rightarrow> nat" where
  "code c = of_char c"

definition isDigit :: "char \<Rightarrow> bool" where
  "isDigit c \<longleftrightarrow> 48 \<le> code c \<and> code c \<le> 57"

definition isWordChar :: "char \<Rightarrow> bool" where
  "isWordChar c \<longleftrightarrow> isDigit c \<or> (65 \<le> code c \<and> code c \<le> 90) \<or> (97 \<le> code c \<and> code c \<le> 122) \<or> code c = 95"

definition isSpace :: "char \<Rightarrow> bool" where
  "isSpace c \<longleftrightarrow> code c \<in> {9, 10, 11, 12, 13, 32, 160}"

definition toLowerChar :: "char \<Rightarrow> char" where
  "toLowerChar c =
     (if (65 \<le> code c \<and> code c \<le> 90) \<or> (192 \<le> code c \<and> code c \<le> 222 \<and> code c \<noteq> 215)
      then char_of (code c + 32) else c)"

text \<open>
  \<open>s.split(/(\s+|\b)/)\<close>, as the split of a regular expression works: \<open>p\<close> is where the
  current piece starts and \<open>q\<close> the position tried. \<open>matchSep\<close> is the match of the
  pattern that starts at \<open>q\<close>, by its end: a run of white space, else the empty match at
  a word boundary. A match that ends at \<open>p\<close> is passed over; any other match closes the
  piece \<open>p .. q\<close>, pushes the captured separator after it and starts the next piece at the
  end of the match. The empty string gives one empty piece, since the pattern does not
  match it. \<open>filter(Boolean)\<close> then drops the empty strings.
\<close>

definition substring :: "string \<Rightarrow> nat \<Rightarrow> nat \<Rightarrow> string" where
  "substring s p q = take (q - p) (drop p s)"

definition wordBoundary :: "string \<Rightarrow> nat \<Rightarrow> bool" where
  "wordBoundary s q \<longleftrightarrow> (0 < q \<and> isWordChar (s ! (q - 1))) \<noteq> (q < length s \<and> isWordChar (s ! q))"

definition matchSep :: "string \<Rightarrow> nat \<Rightarrow> nat option" where
  "matchSep s q =
     (if q < length s \<and> isSpace (s ! q) then Some (q + length (takeWhile isSpace (drop q s)))
      else if wordBoundary s q then Some q
      else None)"

function splitLoop :: "string \<Rightarrow> nat \<Rightarrow> nat \<Rightarrow> string list \<Rightarrow> string list" where
  "splitLoop s p q A =
     (if q < length s then
        (case matchSep s q of
           None \<Rightarrow> splitLoop s p (q + 1) A
         | Some e \<Rightarrow>
             if e = p then splitLoop s p (q + 1) A
             else splitLoop s e e (A @ [substring s p q, substring s q e]))
      else A @ [substring s p (length s)])"
  by pat_completeness auto
termination
proof (relation "measure (\<lambda>(s, p, q, A). 2 * (length s - q) + (if p = q then 0 else 1))")
  fix s :: string and p q e :: nat and A :: "string list"
  assume q: "q < length s" and m: "matchSep s q = Some e" and ne: "e \<noteq> p"
  have "length (takeWhile isSpace (drop q s)) \<le> length s - q"
    using length_takeWhile_le[of isSpace "drop q s"] by simp
  moreover have "isSpace (s ! q) \<Longrightarrow> 0 < length (takeWhile isSpace (drop q s))"
    using q by (cases "drop q s") (auto simp: hd_drop_conv_nth dest: arg_cong[where f = hd])
  ultimately have "e = q \<or> (q < e \<and> e \<le> length s)"
    using m q by (auto simp: matchSep_def split: if_splits)
  then show "((s, e, e, A @ [substring s p q, substring s q e]), (s, p, q, A))
      \<in> measure (\<lambda>(s, p, q, A). 2 * (length s - q) + (if p = q then 0 else 1))"
    using q ne by auto
qed auto

declare splitLoop.simps [simp del]

definition splitSep :: "string \<Rightarrow> string list" where
  "splitSep s =
     (if s = [] then (case matchSep s 0 of None \<Rightarrow> [s] | Some _ \<Rightarrow> [])
      else splitLoop s 0 0 [])"

definition tokenize :: "string \<Rightarrow> string list" where
  "tokenize s = filter (\<lambda>t. t \<noteq> []) (splitSep s)"

section \<open>Word differ\<close>

record segment =
  seg_value :: string
  seg_type :: kind

definition getWordDiff :: "string \<Rightarrow> string \<Rightarrow> segment list option" where
  "getWordDiff oldStr newStr = do {
     let oldTokens = tokenize oldStr;
     let newTokens = tokenize newStr;
     dp \<leftarrow> buildLCSTable oldTokens newTokens;
     backtrackLCS dp oldTokens newTokens
       (\<lambda>type _ _ val. \<lparr>seg_value = val, seg_type = type\<rparr>)
   }"

text \<open>
  The coalescing loop. \<open>coalesced[coalesced.length - 1]\<close> is \<open>undefined\<close> while
  \<open>coalesced\<close> is empty; the test \<open>last && last.type === seg.type\<close> then fails and the
  segment is pushed.
\<close>

definition coalesce_step :: "segment list \<Rightarrow> segment \<Rightarrow> segment list" where
  "coalesce_step coalesced seg =
     (case at coalesced (int (length coalesced) - 1) of
        None \<Rightarrow> coalesced @ [seg]
      | Some lastSeg \<Rightarrow>
          if seg_type lastSeg = seg_type seg
          then coalesced[length coalesced - 1 := lastSeg\<lparr>seg_value := seg_value lastSeg @ seg_value seg\<rparr>]
          else coalesced @ [seg])"

definition coalesce :: "segment list \<Rightarrow> segment list" where
  "coalesce rawSegments = foldl coalesce_step [] rawSegments"

section \<open>Line differ\<close>

text \<open>
  The ops of the line differ (\<open>type\<close>, \<open>oldIdx\<close>, \<open>newIdx\<close>, \<open>content\<close>) and the lines of a
  diff. \<open>calculateDiff\<close> maps \<open>equal\<close> to \<open>unchanged\<close>; a text that is \<open>undefined\<close>
  (\<open>None\<close>) counts as the empty string, and the texts are split on the newline.
\<close>

record op =
  op_type :: kind
  oldIdx :: "int option"
  newIdx :: "int option"
  op_content :: string

record diffline =
  line_type :: kind
  oldLine :: "int option"
  newLine :: "int option"
  content :: string
  pairedWith :: "nat option"
  segments :: "segment list option"

definition makeLineOp :: "kind \<Rightarrow> int option \<Rightarrow> int option \<Rightarrow> string \<Rightarrow> op" where
  "makeLineOp type oi ni c =
     \<lparr>op_type = (if type = Equal then Unchanged else type), oldIdx = oi, newIdx = ni, op_content = c\<rparr>"

definition or_empty :: "string option \<Rightarrow> string" where
  "or_empty text = (case text of None \<Rightarrow> [] | Some s \<Rightarrow> s)"

definition newline :: char where
  "newline = CHR 0x0A"

definition lineOps :: "string option \<Rightarrow> string option \<Rightarrow> op list option" where
  "lineOps oldText newText = do {
     let oldLines = split_on newline (or_empty oldText);
     let newLines = split_on newline (or_empty newText);
     dp \<leftarrow> buildLCSTable oldLines newLines;
     backtrackLCS dp oldLines newLines makeLineOp
   }"

text \<open>
  The re-sequencing loop. \<open>collect\<close> is the inner \<open>while\<close> that gathers the removed and
  the added ops of a run and returns the index after it; \<open>interleave\<close> is the \<open>for\<close> loop
  over \<open>k < maxPairs\<close>; \<open>resequence\<close> is the outer \<open>while (opIdx < ops.length)\<close>.
\<close>

function collect :: "op list \<Rightarrow> nat \<Rightarrow> op list \<Rightarrow> op list \<Rightarrow> (nat \<times> op list \<times> op list) option" where
  "collect ops opIdx removed added =
     (if opIdx < length ops then do {
        op \<leftarrow> at ops (int opIdx);
        if op_type op \<noteq> Unchanged then
          (if op_type op = Removed then collect ops (opIdx + 1) (removed @ [op]) added
           else collect ops (opIdx + 1) removed (added @ [op]))
        else Some (opIdx, removed, added)
      } else Some (opIdx, removed, added))"
  by pat_completeness auto
termination
  by (relation "measure (\<lambda>(ops, opIdx, removed, added). length ops - opIdx)") auto

declare collect.simps [simp del]

definition removedLine :: "op \<Rightarrow> diffline" where
  "removedLine r = \<lparr>line_type = Removed, oldLine = oldIdx r, newLine = None, content = op_content r,
     pairedWith = None, segments = None\<rparr>"

definition addedLine :: "op \<Rightarrow> diffline" where
  "addedLine a = \<lparr>line_type = Added, oldLine = None, newLine = newIdx a, content = op_content a,
     pairedWith = None, segments = None\<rparr>"

definition unchangedLine :: "op \<Rightarrow> diffline" where
  "unchangedLine op = \<lparr>line_type = Unchanged, oldLine = oldIdx op, newLine = newIdx op, content = op_content op,
     pairedWith = None, segments = None\<rparr>"

definition interleave_step :: "op list \<Rightarrow> op list \<Rightarrow> nat \<Rightarrow> diffline list \<Rightarrow> diffline list option" where
  "interleave_step removed added k diff = do {
     diff1 \<leftarrow> (if k < length removed then do { r \<leftarrow> at removed (int k); Some (diff @ [removedLine r]) }
               else Some diff);
     (if k < length added then do { a \<leftarrow> at added (int k); Some (diff1 @ [addedLine a]) }
      else Some diff1)
   }"

definition interleave :: "op list \<Rightarrow> op list \<Rightarrow> diffline list \<Rightarrow> diffline list option" where
  "interleave removed added diff =
     (let maxPairs = max (length removed) (length added)
      in for_each (interleave_step removed added) [0..<maxPairs] diff)"

lemma collect_advances:
  "collect ops opIdx removed added = Some (k, removed', added') \<Longrightarrow>
     opIdx \<le> k \<and> (opIdx < length ops \<longrightarrow> op_type (ops ! opIdx) \<noteq> Unchanged \<longrightarrow> opIdx < k)"
proof (induction ops opIdx removed added rule: collect.induct)
  case (1 ops opIdx removed added)
  show ?case
  proof (cases "opIdx < length ops \<and> op_type (ops ! opIdx) \<noteq> Unchanged")
    case True
    then have rd: "at ops (int opIdx) = Some (ops ! opIdx)" by (simp add: at_def)
    show ?thesis
    proof (cases "op_type (ops ! opIdx) = Removed")
      case r: True
      with True rd "1.prems" have "collect ops (opIdx + 1) (removed @ [ops ! opIdx]) added = Some (k, removed', added')"
        by (subst (asm) collect.simps) simp
      with "1.IH"(1)[OF _ rd _ r] True show ?thesis by auto
    next
      case r: False
      with True rd "1.prems" have "collect ops (opIdx + 1) removed (added @ [ops ! opIdx]) = Some (k, removed', added')"
        by (subst (asm) collect.simps) simp
      with "1.IH"(2)[OF _ rd _ r] True show ?thesis by auto
    qed
  next
    case False
    with "1.prems" have "k = opIdx"
      by (subst (asm) collect.simps) (auto simp: at_def split: if_splits)
    with False show ?thesis by auto
  qed
qed

function resequence :: "op list \<Rightarrow> nat \<Rightarrow> diffline list \<Rightarrow> diffline list option" where
  "resequence ops opIdx diff =
     (if opIdx < length ops then do {
        op \<leftarrow> at ops (int opIdx);
        if op_type op = Unchanged then resequence ops (opIdx + 1) (diff @ [unchangedLine op])
        else do {
          (opIdx', removed, added) \<leftarrow> collect ops opIdx [] [];
          diff' \<leftarrow> interleave removed added diff;
          resequence ops opIdx' diff'
        }
      } else Some diff)"
  by pat_completeness auto
termination
  apply (relation "measure (\<lambda>(ops, opIdx, diff). length ops - opIdx)")
  apply simp
   apply simp
  apply (auto dest!: collect_advances simp: at_def split: if_splits)
  done

declare resequence.simps [simp del]

text \<open>
  The pairing pass. \<open>pairedWith\<close> holds the index in \<open>diff\<close> of the line the source refers
  to by object reference; it is unset (\<open>None\<close>) on a fresh line. The same coalesced array is
  attached to both lines.
\<close>

definition isChangePair :: "diffline \<Rightarrow> diffline \<Rightarrow> bool" where
  "isChangePair current next \<longleftrightarrow>
     (line_type current = Removed \<and> line_type next = Added) \<or>
     (line_type current = Added \<and> line_type next = Removed)"

definition pair_step :: "nat \<Rightarrow> diffline list \<Rightarrow> diffline list option" where
  "pair_step k diff = do {
     current \<leftarrow> at diff (int k);
     next \<leftarrow> at diff (int k + 1);
     if isChangePair current next \<and> pairedWith current = None \<and> pairedWith next = None then do {
       let oldStr = (if line_type current = Removed then content current else content next);
       let newStr = (if line_type current = Added then content current else content next);
       rawSegments \<leftarrow> getWordDiff oldStr newStr;
       let coalesced = coalesce rawSegments;
       Some (diff[k := current\<lparr>pairedWith := Some (k + 1), segments := Some coalesced\<rparr>,
                  k + 1 := next\<lparr>pairedWith := Some k, segments := Some coalesced\<rparr>])
     } else Some diff
   }"

definition pairing :: "diffline list \<Rightarrow> diffline list option" where
  "pairing diff = for_each pair_step [0..<nat (int (length diff) - 1)] diff"

definition calculateDiff :: "string option \<Rightarrow> string option \<Rightarrow> diffline list option" where
  "calculateDiff oldText newText = do {
     ops \<leftarrow> lineOps oldText newText;
     diff \<leftarrow> resequence ops 0 [];
     pairing diff
   }"

section \<open>Chunk folder\<close>

text \<open>
  \<open>chunkifyDiff\<close>: the state of the loop is the list of closed chunks and the current
  chunk; \<open>chunk_step\<close> is the body at index \<open>i\<close>.
\<close>

record chunk =
  chunk_type :: kind
  chunk_lines :: "diffline list"

definition chunk_step :: "diffline list \<Rightarrow> nat \<Rightarrow> chunk list \<times> chunk \<Rightarrow> (chunk list \<times> chunk) option" where
  "chunk_step diff i st = do {
     d \<leftarrow> at diff (int i);
     let (chunks, currentChunk) = st;
     if line_type d = chunk_type currentChunk \<or>
        (line_type d \<noteq> Unchanged \<and> chunk_type currentChunk \<noteq> Unchanged)
     then Some (chunks, currentChunk\<lparr>chunk_lines := chunk_lines currentChunk @ [d]\<rparr>)
     else Some (chunks @ [currentChunk], \<lparr>chunk_type = line_type d, chunk_lines = [d]\<rparr>)
   }"

definition chunkifyDiff :: "diffline list \<Rightarrow> chunk list option" where
  "chunkifyDiff diff =
     (if length diff = 0 then Some []
      else do {
        d0 \<leftarrow> at diff 0;
        (chunks, currentChunk) \<leftarrow>
          for_each (chunk_step diff) [1..<length diff] ([], \<lparr>chunk_type = line_type d0, chunk_lines = [d0]\<rparr>);
        Some (chunks @ [currentChunk])
      })"

section \<open>Slug resolver\<close>

text \<open>
  \<open>getFileSlug\<close>: the last segment of the path, in lower case, without version marks,
  stage marks and extension, trimmed. \<open>isSep\<close> is the class \<open>[._-]\<close>.
\<close>

definition isSep :: "char \<Rightarrow> bool" where
  "isSep c \<longleftrightarrow> c = CHR ''.'' \<or> c = CHR ''_'' \<or> c = CHR ''-''"

text \<open>
  \<open>/[._-]v?\d+(\.\d+)*/g\<close>. \<open>dotDigits\<close> consumes the greedy tail \<open>(\.\d+)*\<close>;
  \<open>matchVersion\<close> gives the text after a match that starts at the head of the string.
  When the optional \<open>v\<close> is taken and no digit follows, the matcher backtracks to the
  reading without \<open>v\<close>, which then needs a digit where the \<open>v\<close> stands and fails too.
\<close>

function dotDigits :: "string \<Rightarrow> string" where
  "dotDigits s =
     (case s of
        c # d # r \<Rightarrow> if c = CHR ''.'' \<and> isDigit d then dotDigits (dropWhile isDigit r) else s
      | _ \<Rightarrow> s)"
  by pat_completeness auto
termination
  by (relation "measure length") (auto simp: length_dropWhile_le le_imp_less_Suc less_SucI)

declare dotDigits.simps [simp del]

definition matchVersion :: "string \<Rightarrow> string option" where
  "matchVersion s =
     (case s of
        [] \<Rightarrow> None
      | c # r \<Rightarrow>
          if isSep c then
            (let r1 = (case r of [] \<Rightarrow> r | v # r' \<Rightarrow> if v = CHR ''v'' then r' else r)
             in (case r1 of
                   [] \<Rightarrow> None
                 | d # r2 \<Rightarrow> if isDigit d then Some (dotDigits (dropWhile isDigit r2)) else None))
          else None)"

text \<open>\<open>/[._-](legacy|modern|old|new|final|latest)/g\<close>\<close>

definition stageWords :: "string list" where
  "stageWords = [''legacy'', ''modern'', ''old'', ''new'', ''final'', ''latest'']"

definition matchStage :: "string \<Rightarrow> string option" where
  "matchStage s =
     (case s of
        [] \<Rightarrow> None
      | c # r \<Rightarrow>
          if isSep c then
            (case filter (\<lambda>w. take (length w) r = w) stageWords of
               [] \<Rightarrow> None
             | w # _ \<Rightarrow> Some (drop (length w) r))
          else None)"

text \<open>
  \<open>replace(re, '')\<close> with a global pattern, where \<open>m\<close> gives the text after a match
  at the head of the string: a non-empty match is dropped and the scan goes on after it;
  where there is no match (or an empty one) the character is kept and the scan moves on
  by one.
\<close>

function removeAll :: "(string \<Rightarrow> string option) \<Rightarrow> string \<Rightarrow> string" where
  "removeAll m s =
     (case s of
        [] \<Rightarrow> []
      | c # r \<Rightarrow>
          (case m s of
             None \<Rightarrow> c # removeAll m r
           | Some rest \<Rightarrow> if length rest < length s then removeAll m rest else c # removeAll m r))"
  by pat_completeness auto
termination
  by (relation "measure (\<lambda>(m, s). length s)") auto

declare removeAll.simps [simp del]

text \<open>
  \<open>replace(/\.[^/.]+$/, "")\<close>: the leftmost dot that is followed, up to the end of the
  string, by one or more characters other than dot and slash; the match runs to the end.
\<close>

fun stripExt :: "string \<Rightarrow> string" where
  "stripExt [] = []"
| "stripExt (c # r) =
     (if c = CHR ''.'' \<and> r \<noteq> [] \<and> list_all (\<lambda>x. x \<noteq> CHR ''/'' \<and> x \<noteq> CHR ''.'') r then []
      else c # stripExt r)"

definition trim :: "string \<Rightarrow> string" where
  "trim s = rev (dropWhile isSpace (rev (dropWhile isSpace s)))"

definition getFileSlug :: "string \<Rightarrow> string option" where
  "getFileSlug path = do {
     let segments = split_on (CHR ''/'') path;
     filename \<leftarrow> at segments (int (length segments) - 1);
     Some (trim (stripExt (removeAll matchStage (removeAll matchVersion (map toLowerChar filename)))))
   }"

section \<open>File matcher\<close>

text \<open>
  The files (\<open>path\<close>, \<open>content\<close>, \<open>size\<close>) and the pairs the matcher returns, of type
  \<open>modified\<close>, \<open>added\<close> or \<open>deleted\<close>; \<open>null\<close> is \<open>None\<close>.
\<close>

record sourceFile =
  path :: string
  file_content :: string
  file_size :: nat

datatype pairType = Modified | AddedFile | Deleted

record matchedPair =
  pair_type :: pairType
  pair_slug :: string
  v1 :: "sourceFile option"
  v2 :: "sourceFile option"

text \<open>
  A \<open>Map\<close> from slugs to arrays of files is an association list in insertion order;
  \<open>mapGet\<close> is \<open>Map.prototype.get\<close>, \<open>None\<close> for \<open>undefined\<close>.
\<close>

type_synonym fileMap = "(string \<times> sourceFile list) list"

definition mapGet :: "fileMap \<Rightarrow> string \<Rightarrow> sourceFile list option" where
  "mapGet m k = map_of m k"

definition buildFileMap_step :: "sourceFile \<Rightarrow> fileMap \<Rightarrow> fileMap option" where
  "buildFileMap_step f m = do {
     slug \<leftarrow> getFileSlug (path f);
     let m1 = (if mapGet m slug = None then m @ [(slug, [])] else m);
     fs \<leftarrow> mapGet m1 slug;
     Some (map (\<lambda>(k, v). if k = slug then (k, fs @ [f]) else (k, v)) m1)
   }"

definition buildFileMap :: "sourceFile list \<Rightarrow> fileMap option" where
  "buildFileMap files = for_each buildFileMap_step files []"

text \<open>\<open>new Set(keys)\<close> in insertion order: the first occurrence of each key.\<close>

definition newSet :: "'a list \<Rightarrow> 'a list" where
  "newSet keys = foldl (\<lambda>s k. if k \<in> set s then s else s @ [k]) [] keys"

definition pairFor :: "fileMap \<Rightarrow> fileMap \<Rightarrow> string \<Rightarrow> matchedPair option" where
  "pairFor v1Map v2Map slug =
     (let v1Matches = (case mapGet v1Map slug of None \<Rightarrow> [] | Some fs \<Rightarrow> fs);
          v2Matches = (case mapGet v2Map slug of None \<Rightarrow> [] | Some fs \<Rightarrow> fs)
      in if length v1Matches > 0 \<and> length v2Matches > 0 then do {
           a \<leftarrow> at v1Matches 0;
           b \<leftarrow> at v2Matches 0;
           Some \<lparr>pair_type = Modified, pair_slug = slug, v1 = Some a, v2 = Some b\<rparr>
         } else if length v1Matches > 0 then do {
           a \<leftarrow> at v1Matches 0;
           Some \<lparr>pair_type = Deleted, pair_slug = slug, v1 = Some a, v2 = None\<rparr>
         } else do {
           b \<leftarrow> at v2Matches 0;
           Some \<lparr>pair_type = AddedFile, pair_slug = slug, v1 = None, v2 = Some b\<rparr>
         })"

text \<open>
  \<open>Array.prototype.sort\<close> with a comparator is a stable sort: for a consistent comparator
  its result is the stable sorted arrangement, computed here by insertion. The comparator
  \<open>localeCompare\<close> belongs to the host and is a parameter of the matcher.
\<close>

fun insertBy :: "('a \<Rightarrow> 'a \<Rightarrow> int) \<Rightarrow> 'a \<Rightarrow> 'a list \<Rightarrow> 'a list" where
  "insertBy cmp x [] = [x]"
| "insertBy cmp x (y # ys) = (if cmp x y \<le> 0 then x # y # ys else y # insertBy cmp x ys)"

definition sortBy :: "('a \<Rightarrow> 'a \<Rightarrow> int) \<Rightarrow> 'a list \<Rightarrow> 'a list" where
  "sortBy cmp xs = foldr (insertBy cmp) xs []"

definition matchedPairs ::
  "(string \<Rightarrow> string \<Rightarrow> int) \<Rightarrow> sourceFile list \<Rightarrow> sourceFile list \<Rightarrow> matchedPair list option" where
  "matchedPairs localeCompare v1Files v2Files =
     (if length v1Files = 0 \<and> length v2Files = 0 then Some []
      else do {
        v1Map \<leftarrow> buildFileMap v1Files;
        v2Map \<leftarrow> buildFileMap v2Files;
        let allSlugs = newSet (map fst v1Map @ map fst v2Map);
        pairs \<leftarrow> those (map (pairFor v1Map v2Map) allSlugs);
        Some (sortBy (\<lambda>a b. localeCompare (pair_slug a) (pair_slug b)) pairs)
      })"

text \<open>A file with the given path, for the examples.\<close>

definition fileAt :: "string \<Rightarrow> sourceFile" where
  "fileAt p = \<lparr>path = p, file_content = [], file_size = 0\<rparr>"

section \<open>The re-sequencing policy, as specified\<close>

text \<open>
  For \<open>k\<close> from 0 to \<open>max(removedCount, addedCount) - 1\<close>: \<open>removed[k]\<close> if it exists, then
  \<open>added[k]\<close> if it exists.
\<close>

definition interleave_policy :: "op list \<Rightarrow> op list \<Rightarrow> diffline list" where
  "interleave_policy removed added =
     concat (map (\<lambda>k. (if k < length removed then [removedLine (removed ! k)] else []) @
                      (if k < length added then [addedLine (added ! k)] else []))
                 [0..<max (length removed) (length added)])"

text \<open>
  Unchanged ops pass through; a maximal run of consecutive ops that are not unchanged is
  split into its removed ops and its added ops, each in order, and interleaved.
\<close>

function reseq_policy :: "op list \<Rightarrow> diffline list" where
  "reseq_policy [] = []"
| "reseq_policy (op # ops) =
     (if op_type op = Unchanged then unchangedLine op # reseq_policy ops
      else (let run = takeWhile (\<lambda>x. op_type x \<noteq> Unchanged) (op # ops);
                rest = dropWhile (\<lambda>x. op_type x \<noteq> Unchanged) (op # ops)
            in interleave_policy (filter (\<lambda>x. op_type x = Removed) run)
                                 (filter (\<lambda>x. op_type x = Added) run)
               @ reseq_policy rest))"
  by pat_completeness auto
termination
  by (relation "measure length") (auto simp: length_dropWhile_le le_imp_less_Suc)

text \<open>A line without the two fields the pairing pass sets.\<close>

definition unpaired :: "diffline \<Rightarrow> diffline" where
  "unpaired l = l\<lparr>pairedWith := None, segments := None\<rparr>"

declare reseq_policy.simps [simp del]

text \<open>The kinds an op of the line differ can have.\<close>

definition line_kinds :: "op list \<Rightarrow> bool" where
  "line_kinds ops \<longleftrightarrow> (\<forall>x \<in> set ops. op_type x = Unchanged \<or> op_type x = Added \<or> op_type x = Removed)"

section \<open>Specifications and invariants used in the proofs\<close>

text \<open>The body of the loop of \<open>chunkifyDiff\<close> on a line already read.\<close>

definition chunk_pure :: "diffline \<Rightarrow> chunk list \<times> chunk \<Rightarrow> chunk list \<times> chunk" where
  "chunk_pure d st =
     (let (chunks, currentChunk) = st
      in if line_type d = chunk_type currentChunk \<or>
            (line_type d \<noteq> Unchanged \<and> chunk_type currentChunk \<noteq> Unchanged)
         then (chunks, currentChunk\<lparr>chunk_lines := chunk_lines currentChunk @ [d]\<rparr>)
         else (chunks @ [currentChunk], \<lparr>chunk_type = line_type d, chunk_lines = [d]\<rparr>))"

text \<open>A chunk has a line and is of one side: all its lines unchanged, or none.\<close>

definition chunk_ok :: "chunk \<Rightarrow> bool" where
  "chunk_ok c \<longleftrightarrow> chunk_lines c \<noteq> [] \<and>
     (if chunk_type c = Unchanged then \<forall>l \<in> set (chunk_lines c). line_type l = Unchanged
      else \<forall>l \<in> set (chunk_lines c). line_type l \<noteq> Unchanged)"

text \<open>
  Merging as specified: two adjacent segments of the same kind become one segment of that
  kind whose value is the concatenation of their values.
\<close>

function mergeRuns :: "segment list \<Rightarrow> segment list" where
  "mergeRuns [] = []"
| "mergeRuns [s] = [s]"
| "mergeRuns (s # t # rest) =
     (if seg_type s = seg_type t
      then mergeRuns (s\<lparr>seg_value := seg_value s @ seg_value t\<rparr> # rest)
      else s # mergeRuns (t # rest))"
  by pat_completeness auto
termination
  by (relation "measure length") auto

text \<open>
  The two strings the pairing pass hands to the word differ for two paired lines: the
  content of the removed one and the content of the added one.
\<close>

definition oldStrOf :: "diffline \<Rightarrow> diffline \<Rightarrow> string" where
  "oldStrOf a b = (if line_type a = Removed then content a else content b)"

definition newStrOf :: "diffline \<Rightarrow> diffline \<Rightarrow> string" where
  "newStrOf a b = (if line_type a = Added then content a else content b)"

text \<open>
  The invariant of the pairing pass: a line without a partner has no segments; a line with
  a partner is next to it, the two refer to each other and form a change pair, and the
  line carries the coalesced word diff of the pair.
\<close>

definition paired_ok :: "diffline list \<Rightarrow> nat \<Rightarrow> bool" where
  "paired_ok diff k \<longleftrightarrow>
     (case pairedWith (diff ! k) of
        None \<Rightarrow> segments (diff ! k) = None
      | Some p \<Rightarrow>
          p < length diff \<and> pairedWith (diff ! p) = Some k \<and> (p = k + 1 \<or> k = p + 1) \<and>
          isChangePair (diff ! k) (diff ! p) \<and>
          (\<exists>raw. getWordDiff (oldStrOf (diff ! k) (diff ! p)) (newStrOf (diff ! k) (diff ! p)) = Some raw \<and>
                 segments (diff ! k) = Some (coalesce raw)))"

definition pair_inv :: "diffline list \<Rightarrow> bool" where
  "pair_inv diff \<longleftrightarrow> (\<forall>k < length diff. paired_ok diff k)"

section \<open>Comparators\<close>

text \<open>
  A comparator is consistent, as \<open>Array.prototype.sort\<close> asks, when it is total and
  transitive on "not greater".
\<close>

definition consistent :: "('a \<Rightarrow> 'a \<Rightarrow> int) \<Rightarrow> bool" where
  "consistent cmp \<longleftrightarrow>
     (\<forall>x y. cmp x y \<le> 0 \<or> cmp y x \<le> 0) \<and>
     (\<forall>x y z. cmp x y \<le> 0 \<and> cmp y z \<le> 0 \<longrightarrow> cmp x z \<le> 0)"

text \<open>Three-way lexicographic comparison of two sequences of keys.\<close>

fun compareKeys :: "nat list \<Rightarrow> nat list \<Rightarrow> int" where
  "compareKeys [] [] = 0"
| "compareKeys [] (y # ys) = -1"
| "compareKeys (x # xs) [] = 1"
| "compareKeys (x # xs) (y # ys) = (if x < y then -1 else if y < x then 1 else compareKeys xs ys)"

text \<open>Lexicographic order on strings by code unit.\<close>

definition codeUnitCompare :: "string \<Rightarrow> string \<Rightarrow> int" where
  "codeUnitCompare a b = compareKeys (map code a) (map code b)"

text \<open>
  A collation of the kind the hosts give \<open>localeCompare\<close>: punctuation and symbols come
  before the digits and the digits before the letters, as in the root collation of the
  Unicode CLDR that the common engines use; inside one class the code unit decides.
  It stands for one possible host; the source does not fix the collation.
\<close>

definition collationKey :: "char \<Rightarrow> nat" where
  "collationKey c =
     (if isDigit c then 256 + code c
      else if (65 \<le> code c \<and> code c \<le> 90) \<or> (97 \<le> code c \<and> code c \<le> 122) then 512 + code c
      else code c)"

definition collationCompare :: "string \<Rightarrow> string \<Rightarrow> int" where
  "collationCompare a b = compareKeys (map collationKey a) (map collationKey b)"

text \<open>
  The reads of the coalescing loop: at each iteration, the length of \<open>coalesced\<close> and
  the index \<open>coalesced.length - 1\<close> that is read.
\<close>

definition coalesce_reads :: "segment list \<Rightarrow> (nat \<times> int) list" where
  "coalesce_reads rawSegments =
     map (\<lambda>n. let coalesced = foldl coalesce_step [] (take n rawSegments)
              in (length coalesced, int (length coalesced) - 1))
         [0..<length rawSegments]"

text \<open>A read \<open>(length, index)\<close> is in bounds when \<open>0 \<le> index < length\<close>.\<close>

definition in_bounds :: "nat \<times> int \<Rightarrow> bool" where
  "in_bounds r \<longleftrightarrow> 0 \<le> snd r \<and> snd r < int (fst r)"

text \<open>Every slug recorded in a file map has at least one file.\<close>

definition slug_lists_ok :: "fileMap \<Rightarrow> bool" where
  "slug_lists_ok m \<longleftrightarrow> (\<forall>k fs. map_of m k = Some fs \<longrightarrow> fs \<noteq> [])"


section \<open>Correctness of the LCS table\<close>

lemma subseq_singleton_right: "subseq ws [a] \<longleftrightarrow> ws = [] \<or> ws = [a]"
  by (cases ws) (auto split: if_splits)

lemma subseq_snoc_cases:
  "subseq zs (xs @ [a]) \<longleftrightarrow> subseq zs xs \<or> (\<exists>zs'. zs = zs' @ [a] \<and> subseq zs' xs)"
  by (auto simp: subseq_append_iff subseq_singleton_right intro: subseq_rev_drop_many)

lemma common_snoc_eq:
  assumes "subseq zs (xs @ [a])" and "subseq zs (ys @ [a])"
  shows "\<exists>zs'. subseq zs' xs \<and> subseq zs' ys \<and> length zs \<le> length zs' + 1"
proof (cases "\<exists>zs'. zs = zs' @ [a]")
  case True
  then obtain zs' where zs: "zs = zs' @ [a]" by blast
  with assms have "subseq zs' xs" "subseq zs' ys" by simp_all
  with zs show ?thesis by auto
next
  case False
  with assms have "subseq zs xs" "subseq zs ys" by (auto simp: subseq_snoc_cases)
  then show ?thesis by auto
qed

lemma common_snoc_neq:
  assumes "a \<noteq> b" and "subseq zs (xs @ [a])" and "subseq zs (ys @ [b])"
  shows "subseq zs xs \<or> subseq zs ys"
  using assms by (auto simp: subseq_snoc_cases)

lemma lcsLen_correct:
  "i \<le> length A \<Longrightarrow> j \<le> length B \<Longrightarrow> is_lcs_length (take i A) (take j B) (lcsLen A B i j)"
proof (induction A B i j rule: lcsLen.induct)
  case (1 A B j)
  then show ?case by (auto simp add: is_lcs_length_def)
next
  case (2 A B i)
  then show ?case by (auto simp add: is_lcs_length_def)
next
  case (3 A B i j)
  let ?xs = "take i A" and ?ys = "take j B"
  from 3 have ti: "take (Suc i) A = ?xs @ [A ! i]" and tj: "take (Suc j) B = ?ys @ [B ! j]"
    by (simp_all add: take_Suc_conv_app_nth)
  show ?case
  proof (cases "A ! i = B ! j")
    case True
    with 3 have IH: "is_lcs_length ?xs ?ys (lcsLen A B i j)" by simp
    then obtain zs where zs: "subseq zs ?xs" "subseq zs ?ys" "length zs = lcsLen A B i j"
      and ub: "\<And>ws. subseq ws ?xs \<Longrightarrow> subseq ws ?ys \<Longrightarrow> length ws \<le> lcsLen A B i j"
      unfolding is_lcs_length_def by blast
    have ex: "\<exists>ws. subseq ws (?xs @ [A ! i]) \<and> subseq ws (?ys @ [B ! j]) \<and> length ws = lcsLen A B i j + 1"
      using zs True by (intro exI[of _ "zs @ [A ! i]"]) simp
    have bd: "length ws \<le> lcsLen A B i j + 1"
      if "subseq ws (?xs @ [A ! i])" "subseq ws (?ys @ [B ! j])" for ws
    proof -
      from that True obtain ws' where "subseq ws' ?xs" "subseq ws' ?ys" "length ws \<le> length ws' + 1"
        using common_snoc_eq[of ws ?xs "A ! i" ?ys] by auto
      with ub[of ws'] show ?thesis by simp
    qed
    show ?thesis using ex bd True unfolding ti tj is_lcs_length_def by simp
  next
    case False
    with 3 have IH1: "is_lcs_length ?xs (take (Suc j) B) (lcsLen A B i (Suc j))"
      and IH2: "is_lcs_length (take (Suc i) A) ?ys (lcsLen A B (Suc i) j)" by simp_all
    from IH1 obtain z1 where z1: "subseq z1 ?xs" "subseq z1 (?ys @ [B ! j])" "length z1 = lcsLen A B i (Suc j)"
      and ub1: "\<And>ws. subseq ws ?xs \<Longrightarrow> subseq ws (?ys @ [B ! j]) \<Longrightarrow> length ws \<le> lcsLen A B i (Suc j)"
      unfolding is_lcs_length_def tj by blast
    from IH2 obtain z2 where z2: "subseq z2 (?xs @ [A ! i])" "subseq z2 ?ys" "length z2 = lcsLen A B (Suc i) j"
      and ub2: "\<And>ws. subseq ws (?xs @ [A ! i]) \<Longrightarrow> subseq ws ?ys \<Longrightarrow> length ws \<le> lcsLen A B (Suc i) j"
      unfolding is_lcs_length_def ti by blast
    let ?k = "max (lcsLen A B i (Suc j)) (lcsLen A B (Suc i) j)"
    have ex: "\<exists>ws. subseq ws (?xs @ [A ! i]) \<and> subseq ws (?ys @ [B ! j]) \<and> length ws = ?k"
    proof (cases "lcsLen A B i (Suc j) \<le> lcsLen A B (Suc i) j")
      case True
      then show ?thesis using z2 by (intro exI[of _ z2]) (auto intro: subseq_rev_drop_many)
    next
      case False
      then show ?thesis using z1 by (intro exI[of _ z1]) (auto intro: subseq_rev_drop_many)
    qed
    have bd: "length ws \<le> ?k"
      if "subseq ws (?xs @ [A ! i])" "subseq ws (?ys @ [B ! j])" for ws
      using common_snoc_neq[OF False that] ub1[of ws] ub2[of ws] that by auto
    show ?thesis using ex bd False unfolding ti tj is_lcs_length_def by simp
  qed
qed


lemma at_nat: "at xs (int k) = (if k < length xs then Some (xs ! k) else None)"
  by (simp add: at_def)

lemma at_Suc_minus: "at xs (int (Suc k) - 1) = (if k < length xs then Some (xs ! k) else None)"
  by (simp add: at_def)

lemma at_one_plus: "at xs (1 + int k) = (if Suc k < length xs then Some (xs ! Suc k) else None)"
  using at_nat[of xs "Suc k"] by simp

lemma lcsLen_0_right [simp]: "lcsLen A B i 0 = 0"
  by (cases i) simp_all

lemma lcsCell_step:
  assumes inv: "tbl_inv A B dp (Suc i) (Suc j)" and i: "i < length A" and j: "j < length B"
  shows "\<exists>dp'. lcsCell A B (Suc i) (Suc j) dp = Some dp' \<and> tbl_inv A B dp' (Suc i) (Suc (Suc j))"
proof -
  let ?v = "lcsLen A B (Suc i) (Suc j)"
  let ?dp' = "dp[Suc i := (dp ! Suc i)[Suc j := ?v]]"
  from inv have len: "length dp = length A + 1" and rows: "\<And>r. r \<le> length A \<Longrightarrow> length (dp ! r) = length B + 1"
    and cells: "\<And>r c. r \<le> length A \<Longrightarrow> c \<le> length B \<Longrightarrow> (r = 0 \<or> c = 0 \<or> r < Suc i \<or> (r = Suc i \<and> c < Suc j)) \<Longrightarrow> dp ! r ! c = lcsLen A B r c"
    unfolding tbl_inv_def by auto
  have c1: "dp ! i ! j = lcsLen A B i j" using cells[of i j] i j by simp
  have c2: "dp ! i ! Suc j = lcsLen A B i (Suc j)" using cells[of i "Suc j"] i j by simp
  have c3: "dp ! Suc i ! j = lcsLen A B (Suc i) j" using cells[of "Suc i" j] i j by simp
  have "lcsCell A B (Suc i) (Suc j) dp = Some ?dp'"
    using i j len rows[of i] rows[of "Suc i"] c1 c2 c3
    by (simp add: lcsCell_def at2_def put2_def at_nat at_one_plus nat_add_distrib)
  moreover have "tbl_inv A B ?dp' (Suc i) (Suc (Suc j))"
    unfolding tbl_inv_def
  proof (intro conjI allI impI)
    show "length ?dp' = length A + 1" using len by simp
  next
    fix r assume "r \<le> length A"
    then show "length (?dp' ! r) = length B + 1" using rows[of r] len by (cases "r = Suc i") simp_all
  next
    fix r c assume h: "r \<le> length A \<and> c \<le> length B \<and> (r = 0 \<or> c = 0 \<or> r < Suc i \<or> (r = Suc i \<and> c < Suc (Suc j)))"
    show "?dp' ! r ! c = lcsLen A B r c"
    proof (cases "r = Suc i \<and> c = Suc j")
      case True
      then show ?thesis using len rows[of "Suc i"] i j by simp
    next
      case False
      then have "?dp' ! r ! c = dp ! r ! c" using len h by (cases "r = Suc i") auto
      moreover have "dp ! r ! c = lcsLen A B r c" using cells[of r c] h False by auto
      ultimately show ?thesis by simp
    qed
  qed
  ultimately show ?thesis by blast
qed

lemma inner_loop:
  assumes i: "i < length A"
  shows "j \<le> length B \<Longrightarrow> tbl_inv A B dp (Suc i) (Suc j) \<Longrightarrow>
    \<exists>dp'. for_each (lcsCell A B (Suc i)) [Suc j..<length B + 1] dp = Some dp' \<and> tbl_inv A B dp' (Suc i) (length B + 1)"
proof (induction "length B - j" arbitrary: j dp)
  case 0
  then show ?case by simp
next
  case (Suc k)
  then have j: "j < length B" by simp
  from lcsCell_step[OF Suc.prems(2) i j] obtain dp1 where
    s: "lcsCell A B (Suc i) (Suc j) dp = Some dp1" and inv1: "tbl_inv A B dp1 (Suc i) (Suc (Suc j))" by blast
  from Suc.hyps(2) j have "k = length B - Suc j" by simp
  from Suc.hyps(1)[OF this _ inv1] j obtain dp' where
    "for_each (lcsCell A B (Suc i)) [Suc (Suc j)..<length B + 1] dp1 = Some dp'" "tbl_inv A B dp' (Suc i) (length B + 1)"
    by auto
  moreover have "[Suc j..<length B + 1] = Suc j # [Suc (Suc j)..<length B + 1]"
    using j by (simp add: upt_conv_Cons)
  ultimately show ?case using s by simp
qed

lemma tbl_inv_next_row: "tbl_inv A B dp i (length B + 1) \<Longrightarrow> tbl_inv A B dp (Suc i) (Suc 0)"
  unfolding tbl_inv_def
proof (intro conjI allI impI)
  fix r c
  assume inv: "length dp = length A + 1 \<and> (\<forall>r\<le>length A. length (dp ! r) = length B + 1) \<and>
     (\<forall>r c. r \<le> length A \<and> c \<le> length B \<and> (r = 0 \<or> c = 0 \<or> r < i \<or> r = i \<and> c < length B + 1)
        \<longrightarrow> dp ! r ! c = lcsLen A B r c)"
    and h: "r \<le> length A \<and> c \<le> length B \<and> (r = 0 \<or> c = 0 \<or> r < Suc i \<or> r = Suc i \<and> c < Suc 0)"
  from h have "r = 0 \<or> c = 0 \<or> r < i \<or> r = i \<and> c < length B + 1" by auto
  with inv h show "dp ! r ! c = lcsLen A B r c" by blast
qed simp_all

lemma outer_loop:
  "i \<le> length A \<Longrightarrow> tbl_inv A B dp (Suc i) (Suc 0) \<Longrightarrow>
    \<exists>dp'. for_each (\<lambda>i. for_each (lcsCell A B i) [1..<length B + 1]) [Suc i..<length A + 1] dp = Some dp'
       \<and> tbl_inv A B dp' (length A + 1) (Suc 0)"
proof (induction "length A - i" arbitrary: i dp)
  case 0
  then show ?case by simp
next
  case (Suc k)
  then have i: "i < length A" by simp
  from inner_loop[OF i, of 0 B dp] Suc.prems(2) obtain dp1 where
    s: "for_each (lcsCell A B (Suc i)) [1..<length B + 1] dp = Some dp1"
    and inv1: "tbl_inv A B dp1 (Suc i) (length B + 1)" by auto
  from Suc.hyps(2) i have "k = length A - Suc i" by simp
  from Suc.hyps(1)[OF this _ tbl_inv_next_row[OF inv1]] i obtain dp' where
    "for_each (\<lambda>i. for_each (lcsCell A B i) [1..<length B + 1]) [Suc (Suc i)..<length A + 1] dp1 = Some dp'"
    "tbl_inv A B dp' (length A + 1) (Suc 0)"
    by auto
  moreover have "[Suc i..<length A + 1] = Suc i # [Suc (Suc i)..<length A + 1]"
    using i by (simp add: upt_conv_Cons)
  ultimately show ?case using s by simp
qed

lemma tbl_inv_init: "tbl_inv A B (replicate (length A + 1) (replicate (length B + 1) 0)) (Suc 0) (Suc 0)"
  unfolding tbl_inv_def by (auto simp del: replicate_Suc simp: nth_replicate)

lemma buildLCSTable_inv:
  "\<exists>dp. buildLCSTable A B = Some dp \<and> tbl_inv A B dp (length A + 1) (Suc 0)"
  using outer_loop[of 0 A B, OF _ tbl_inv_init] by (simp add: buildLCSTable_def Let_def del: replicate_Suc upt_Suc)

text \<open>
  Claim C2. For all sequences \<open>seqA\<close> (length \<open>m\<close>) and \<open>seqB\<close> (length \<open>n\<close>),
  \<open>buildLCSTable\<close> returns without a fault a table of \<open>m + 1\<close> rows of \<open>n + 1\<close> entries;
  the entry \<open>[i][j]\<close> is the length of a longest common subsequence of the first \<open>i\<close>
  elements of \<open>seqA\<close> and the first \<open>j\<close> elements of \<open>seqB\<close>, and row 0 and column 0
  are zero.
\<close>

theorem buildLCSTable_correct:
  "\<exists>dp. buildLCSTable seqA seqB = Some dp \<and> length dp = length seqA + 1 \<and>
     (\<forall>i \<le> length seqA. length (dp ! i) = length seqB + 1 \<and>
        (\<forall>j \<le> length seqB. is_lcs_length (take i seqA) (take j seqB) (dp ! i ! j)
            \<and> dp ! 0 ! j = 0 \<and> dp ! i ! 0 = 0))"
proof -
  from buildLCSTable_inv[of seqA seqB] obtain dp where
    dp: "buildLCSTable seqA seqB = Some dp" and inv: "tbl_inv seqA seqB dp (length seqA + 1) (Suc 0)"
    by blast
  from inv have len: "length dp = length seqA + 1"
    and rows: "\<And>r. r \<le> length seqA \<Longrightarrow> length (dp ! r) = length seqB + 1"
    and cells: "\<And>r c. r \<le> length seqA \<Longrightarrow> c \<le> length seqB \<Longrightarrow> dp ! r ! c = lcsLen seqA seqB r c"
    unfolding tbl_inv_def by auto
  have "is_lcs_length (take i seqA) (take j seqB) (dp ! i ! j) \<and> dp ! 0 ! j = 0 \<and> dp ! i ! 0 = 0"
    if "i \<le> length seqA" "j \<le> length seqB" for i j
    using that cells[of i j] cells[of 0 j] cells[of i 0] lcsLen_correct[of i seqA j seqB] by simp
  with dp len rows show ?thesis by blast
qed

theorem buildLCSTable_correct_witness:
  "buildLCSTable [1::nat, 2] [2] = Some [[0, 0], [0, 0], [0, 1]] \<and> is_lcs_length [1::nat, 2] [2] 1"
proof -
  have e: "buildLCSTable [1::nat, 2] [2] = Some [[0, 0], [0, 0], [0, 1]]"
    by (simp add: buildLCSTable_def lcsCell_def at_def at2_def put2_def)
  from buildLCSTable_correct[of "[1::nat, 2]" "[2]"] e
  have "\<forall>i \<le> 2. \<forall>j \<le> 1. is_lcs_length (take i [1::nat, 2]) (take j [2]) ([[0, 0], [0, 0], [0, 1::nat]] ! i ! j)"
    by simp
  then have "is_lcs_length (take 2 [1::nat, 2]) (take 1 [2]) ([[0, 0], [0, 0], [0, 1::nat]] ! 2 ! 1)"
    by blast
  with e show ?thesis by simp
qed

section \<open>Backtracking follows the walk\<close>

lemma at_int_minus: "0 < k \<Longrightarrow> k \<le> length xs \<Longrightarrow> at xs (int k - 1) = Some (xs ! (k - 1))"
  by (auto simp: at_def nat_diff_distrib')

lemma at2_shape:
  "table_shape A B t \<Longrightarrow> r \<le> length A \<Longrightarrow> c \<le> length B \<Longrightarrow> at2 t (int r) (int c) = Some (t ! r ! c)"
  by (simp add: table_shape_def at2_def at_nat)

lemma walk_00: "walk t A B mk 0 0 = []"
  by (subst walk.simps) simp

lemma loop_00: "backtrack_loop t A B mk 0 0 acc = Some acc"
  by (subst backtrack_loop.simps) simp

lemma loop_equal:
  assumes "0 < i" "0 < j" "i \<le> length A" "j \<le> length B" "A ! (i - 1) = B ! (j - 1)"
  shows "backtrack_loop t A B mk (int i) (int j) acc =
     backtrack_loop t A B mk (int i - 1) (int j - 1) (mk Equal (Some (int i)) (Some (int j)) (A ! (i - 1)) # acc)"
proof -
  have rd: "at A (int i - 1) = Some (A ! (i - 1))" "at B (int j - 1) = Some (B ! (j - 1))"
    using assms by (simp_all add: at_int_minus)
  show ?thesis
    by (subst backtrack_loop.simps[of t A B mk "int i" "int j"]) (use assms rd in simp)
qed

lemma loop_added:
  assumes sh: "table_shape A B t" and "0 < j" "i \<le> length A" "j \<le> length B"
    and "\<not> (0 < i \<and> A ! (i - 1) = B ! (j - 1))"
    and "i = 0 \<or> t ! i ! (j - 1) \<ge> t ! (i - 1) ! j"
  shows "backtrack_loop t A B mk (int i) (int j) acc =
     backtrack_loop t A B mk (int i) (int j - 1) (mk Added None (Some (int j)) (B ! (j - 1)) # acc)"
proof -
  have rd: "at B (int j - 1) = Some (B ! (j - 1))" "0 < i \<Longrightarrow> at A (int i - 1) = Some (A ! (i - 1))"
    using assms by (simp_all add: at_int_minus)
  have rt: "0 < i \<Longrightarrow> at2 t (int i) (int j - 1) = Some (t ! i ! (j - 1))"
    "0 < i \<Longrightarrow> at2 t (int i - 1) (int j) = Some (t ! (i - 1) ! j)"
    using at2_shape[OF sh, of i "j - 1"] at2_shape[OF sh, of "i - 1" j] assms
    by simp_all
  show ?thesis
    by (subst backtrack_loop.simps[of t A B mk "int i" "int j"]) (use assms rd rt in auto)
qed

lemma loop_removed:
  assumes sh: "table_shape A B t" and "0 < i" "i \<le> length A" "j \<le> length B"
    and "\<not> (0 < j \<and> A ! (i - 1) = B ! (j - 1))"
    and "\<not> (0 < j \<and> t ! i ! (j - 1) \<ge> t ! (i - 1) ! j)"
  shows "backtrack_loop t A B mk (int i) (int j) acc =
     backtrack_loop t A B mk (int i - 1) (int j) (mk Removed (Some (int i)) None (A ! (i - 1)) # acc)"
proof -
  have rd: "at A (int i - 1) = Some (A ! (i - 1))" "0 < j \<Longrightarrow> at B (int j - 1) = Some (B ! (j - 1))"
    using assms by (simp_all add: at_int_minus)
  have rt: "0 < j \<Longrightarrow> at2 t (int i) (int j - 1) = Some (t ! i ! (j - 1))"
    "0 < j \<Longrightarrow> at2 t (int i - 1) (int j) = Some (t ! (i - 1) ! j)"
    using at2_shape[OF sh, of i "j - 1"] at2_shape[OF sh, of "i - 1" j] assms
    by simp_all
  show ?thesis
    by (subst backtrack_loop.simps[of t A B mk "int i" "int j"]) (use assms rd rt in auto)
qed

lemma backtrack_loop_walk:
  "table_shape A B t \<Longrightarrow> i \<le> length A \<Longrightarrow> j \<le> length B \<Longrightarrow>
     backtrack_loop t A B mk (int i) (int j) acc = Some (rev (walk t A B mk i j) @ acc)"
proof (induction t A B mk i j arbitrary: acc rule: walk.induct)
  case (1 t A B mk i j)
  note sh = "1.prems"(1)
  show ?case
  proof (cases "i = 0 \<and> j = 0")
    case True
    then show ?thesis by (simp add: walk_00 loop_00)
  next
    case nz: False
    show ?thesis
    proof (cases "i > 0 \<and> j > 0 \<and> A ! (i - 1) = B ! (j - 1)")
      case True
      let ?op = "mk Equal (Some (int i)) (Some (int j)) (A ! (i - 1))"
      have ih: "backtrack_loop t A B mk (int (i - 1)) (int (j - 1)) (?op # acc)
         = Some (rev (walk t A B mk (i - 1) (j - 1)) @ ?op # acc)"
        using "1.IH"(1)[OF nz True] "1.prems" by simp
      have w: "walk t A B mk i j = ?op # walk t A B mk (i - 1) (j - 1)"
        using True by (subst walk.simps) auto
      have "backtrack_loop t A B mk (int i) (int j) acc =
          backtrack_loop t A B mk (int i - 1) (int j - 1) (?op # acc)"
        by (rule loop_equal) (use True "1.prems" in auto)
      with ih w True show ?thesis by simp
    next
      case ne: False
      show ?thesis
      proof (cases "j > 0 \<and> (i = 0 \<or> t ! i ! (j - 1) \<ge> t ! (i - 1) ! j)")
        case True
        let ?op = "mk Added None (Some (int j)) (B ! (j - 1))"
        have ih: "backtrack_loop t A B mk (int i) (int (j - 1)) (?op # acc)
         = Some (rev (walk t A B mk i (j - 1)) @ ?op # acc)"
          using "1.IH"(2)[OF nz ne True] "1.prems" by simp
        have w: "walk t A B mk i j = ?op # walk t A B mk i (j - 1)"
          using True ne nz by (subst walk.simps) auto
        have "backtrack_loop t A B mk (int i) (int j) acc =
            backtrack_loop t A B mk (int i) (int j - 1) (?op # acc)"
          by (rule loop_added[OF sh]) (use True ne "1.prems" in auto)
        with ih w True show ?thesis by simp
      next
        case False
        with nz have ipos: "i > 0" by auto
        let ?op = "mk Removed (Some (int i)) None (A ! (i - 1))"
        have ih: "backtrack_loop t A B mk (int (i - 1)) (int j) (?op # acc)
         = Some (rev (walk t A B mk (i - 1) j) @ ?op # acc)"
          using "1.IH"(3)[OF nz ne False] "1.prems" by simp
        have w: "walk t A B mk i j = ?op # walk t A B mk (i - 1) j"
          using False ne nz by (subst walk.simps) auto
        have "backtrack_loop t A B mk (int i) (int j) acc =
            backtrack_loop t A B mk (int i - 1) (int j) (?op # acc)"
          by (rule loop_removed[OF sh]) (use False ne ipos "1.prems" in auto)
        with ih w ipos show ?thesis by simp
      qed
    qed
  qed
qed

lemma buildLCSTable_shape: "buildLCSTable A B = Some t \<Longrightarrow> table_shape A B t"
  using buildLCSTable_inv[of A B] by (auto simp: tbl_inv_def table_shape_def)

lemma backtrackLCS_walk:
  "buildLCSTable A B = Some t \<Longrightarrow>
     backtrackLCS t A B mk = Some (rev (walk t A B mk (length A) (length B)))"
  using backtrack_loop_walk[OF buildLCSTable_shape, of A B t "length A" "length B" mk "[]"]
  by (simp add: backtrackLCS_def)

text \<open>
  Claim C3. For all sequences \<open>seqA\<close>, \<open>seqB\<close> and the table built from them,
  \<open>backtrackLCS\<close> returns exactly the ops of the walk from \<open>(m, n)\<close> to \<open>(0, 0)\<close>
  (equal first; else added when \<open>j > 0\<close> and \<open>i = 0\<close> or \<open>table[i][j-1] \<ge> table[i-1][j]\<close>;
  else removed), in the reverse of the order in which the walk emits them.
\<close>

theorem backtrackLCS_policy:
  "buildLCSTable seqA seqB = Some table \<Longrightarrow>
     backtrackLCS table seqA seqB makeOp =
       Some (rev (walk table seqA seqB makeOp (length seqA) (length seqB)))"
  by (rule backtrackLCS_walk)

lemma build_example: "buildLCSTable [1::nat, 2] [2] = Some [[0, 0], [0, 0], [0, 1]]"
  by (simp add: buildLCSTable_def lcsCell_def at_def at2_def put2_def)

theorem backtrackLCS_policy_witness:
  "buildLCSTable [1::nat, 2] [2] = Some [[0, 0], [0, 0], [0, 1]] \<and>
   backtrackLCS [[0, 0], [0, 0], [0, 1]] [1::nat, 2] [2] (\<lambda>k oi ni c. (k, oi, ni, c)) =
     Some [(Removed, Some 1, None, 1), (Equal, Some 2, Some 1, 2)]"
proof -
  have w: "walk [[0, 0], [0, 0], [0, 1]] [1::nat, 2] [2] (\<lambda>k oi ni c. (k, oi, ni, c))
        (length [1::nat, 2]) (length [2::nat])
      = [(Equal, Some 2, Some 1, 2), (Removed, Some 1, None, 1)]"
    by code_simp
  show ?thesis
    using backtrackLCS_policy[OF build_example, of "\<lambda>k oi ni c. (k, oi, ni, c)"] build_example
    by (simp only: w rev.simps append.simps)
qed

section \<open>The line differ\<close>


lemma at_int: "k < length xs \<Longrightarrow> at xs (int k) = Some (xs ! k)"
  by (simp add: at_def)

lemma interleave_step_eq:
  "interleave_step removed added k diff =
     Some (diff @ (if k < length removed then [removedLine (removed ! k)] else []) @
                  (if k < length added then [addedLine (added ! k)] else []))"
  by (simp add: interleave_step_def at_int)

lemma for_each_interleave:
  "for_each (interleave_step removed added) ks diff =
     Some (diff @ concat (map (\<lambda>k. (if k < length removed then [removedLine (removed ! k)] else []) @
                      (if k < length added then [addedLine (added ! k)] else [])) ks))"
  by (induction ks arbitrary: diff) (simp_all add: interleave_step_eq)

lemma interleave_eq: "interleave removed added diff = Some (diff @ interleave_policy removed added)"
  by (simp add: interleave_def interleave_policy_def for_each_interleave)

lemma collect_run:
  "k \<le> length ops \<Longrightarrow>
   collect ops k removed added =
     (let run = takeWhile (\<lambda>x. op_type x \<noteq> Unchanged) (drop k ops)
      in Some (k + length run, removed @ filter (\<lambda>x. op_type x = Removed) run,
               added @ filter (\<lambda>x. op_type x \<noteq> Removed) run))"
proof (induction ops k removed added rule: collect.induct)
  case (1 ops opIdx removed added)
  show ?case
  proof (cases "opIdx < length ops")
    case False
    with "1.prems" show ?thesis by (subst collect.simps) simp
  next
    case True
    then have rd: "at ops (int opIdx) = Some (ops ! opIdx)" by (rule at_int)
    from True have dr: "drop opIdx ops = ops ! opIdx # drop (Suc opIdx) ops"
      by (simp add: Cons_nth_drop_Suc)
    show ?thesis
    proof (cases "op_type (ops ! opIdx) = Unchanged")
      case u: True
      then show ?thesis using True rd dr by (subst collect.simps) simp
    next
      case u: False
      show ?thesis
      proof (cases "op_type (ops ! opIdx) = Removed")
        case r: True
        from "1.IH"(1)[OF True rd u r] True
        have "collect ops (opIdx + 1) (removed @ [ops ! opIdx]) added =
            (let run = takeWhile (\<lambda>x. op_type x \<noteq> Unchanged) (drop (opIdx + 1) ops)
             in Some (opIdx + 1 + length run, (removed @ [ops ! opIdx]) @ filter (\<lambda>x. op_type x = Removed) run,
               added @ filter (\<lambda>x. op_type x \<noteq> Removed) run))" by simp
        then show ?thesis using True rd dr u r by (subst collect.simps) (simp add: Let_def)
      next
        case r: False
        from "1.IH"(2)[OF True rd u r] True
        have "collect ops (opIdx + 1) removed (added @ [ops ! opIdx]) =
            (let run = takeWhile (\<lambda>x. op_type x \<noteq> Unchanged) (drop (opIdx + 1) ops)
             in Some (opIdx + 1 + length run, removed @ filter (\<lambda>x. op_type x = Removed) run,
               (added @ [ops ! opIdx]) @ filter (\<lambda>x. op_type x \<noteq> Removed) run))" by simp
        then show ?thesis using True rd dr u r by (subst collect.simps) (simp add: Let_def)
      qed
    qed
  qed
qed

lemma filter_added_run:
  assumes "line_kinds ops"
  shows "filter (\<lambda>x. op_type x \<noteq> Removed) (takeWhile (\<lambda>x. op_type x \<noteq> Unchanged) (drop k ops))
       = filter (\<lambda>x. op_type x = Added) (takeWhile (\<lambda>x. op_type x \<noteq> Unchanged) (drop k ops))"
proof (rule filter_cong[OF refl])
  fix x assume x: "x \<in> set (takeWhile (\<lambda>x. op_type x \<noteq> Unchanged) (drop k ops))"
  then have "op_type x \<noteq> Unchanged" by (auto dest: set_takeWhileD)
  moreover from x have "x \<in> set ops" by (auto dest!: set_takeWhileD in_set_dropD)
  ultimately show "(op_type x \<noteq> Removed) = (op_type x = Added)"
    using assms by (auto simp: line_kinds_def)
qed

lemma resequence_policy:
  "k \<le> length ops \<Longrightarrow> line_kinds ops \<Longrightarrow>
     resequence ops k diff = Some (diff @ reseq_policy (drop k ops))"
proof (induction ops k diff rule: resequence.induct)
  case (1 ops opIdx diff)
  show ?case
  proof (cases "opIdx < length ops")
    case False
    with "1.prems" show ?thesis by (subst resequence.simps) (simp add: reseq_policy.simps)
  next
    case True
    then have rd: "at ops (int opIdx) = Some (ops ! opIdx)" by (rule at_int)
    from True have dr: "drop opIdx ops = ops ! opIdx # drop (Suc opIdx) ops"
      by (simp add: Cons_nth_drop_Suc)
    show ?thesis
    proof (cases "op_type (ops ! opIdx) = Unchanged")
      case u: True
      from "1.IH"(1)[OF True rd u] True "1.prems"
      have "resequence ops (opIdx + 1) (diff @ [unchangedLine (ops ! opIdx)])
          = Some ((diff @ [unchangedLine (ops ! opIdx)]) @ reseq_policy (drop (opIdx + 1) ops))" by simp
      then show ?thesis using True rd u
        by (subst resequence.simps) (simp add: dr reseq_policy.simps)
    next
      case u: False
      let ?P = "\<lambda>x. op_type x \<noteq> Unchanged"
      let ?run = "takeWhile ?P (drop opIdx ops)"
      let ?removed = "filter (\<lambda>x. op_type x = Removed) ?run"
      let ?added = "filter (\<lambda>x. op_type x = Added) ?run"
      let ?k = "opIdx + length ?run"
      have c: "collect ops opIdx [] [] = Some (?k, ?removed, ?added)"
        using collect_run[of opIdx ops "[]" "[]"] True filter_added_run[OF "1.prems"(2), of opIdx]
        by (simp add: Let_def)
      have i: "interleave ?removed ?added diff = Some (diff @ interleave_policy ?removed ?added)"
        by (rule interleave_eq)
      have kle: "?k \<le> length ops"
        using length_takeWhile_le[of ?P "drop opIdx ops"] True by simp
      have ih: "resequence ops ?k (diff @ interleave_policy ?removed ?added)
           = Some ((diff @ interleave_policy ?removed ?added) @ reseq_policy (drop ?k ops))"
        by (rule "1.IH"(2)[OF True rd u c refl refl i kle "1.prems"(2)])
      have dk: "drop ?k ops = dropWhile ?P (drop opIdx ops)"
        by (simp add: dropWhile_eq_drop add.commute)
      have "reseq_policy (drop opIdx ops) = interleave_policy ?removed ?added @ reseq_policy (dropWhile ?P (drop opIdx ops))"
        using u by (subst dr, subst reseq_policy.simps) (simp add: Let_def dr)
      then show ?thesis using True rd u c i ih dk
        by (subst resequence.simps) simp
    qed
  qed
qed

lemma buildLCSTable_total: "\<exists>t. buildLCSTable A B = Some t \<and> table_shape A B t"
  using buildLCSTable_inv[of A B] buildLCSTable_shape by blast

lemma getWordDiff_total: "\<exists>raw. getWordDiff a b = Some raw"
proof -
  obtain t where t: "buildLCSTable (tokenize a) (tokenize b) = Some t"
    using buildLCSTable_total by blast
  show ?thesis
    by (simp add: getWordDiff_def Let_def t backtrackLCS_walk[OF t])
qed

lemma lineOps_walk:
  "\<exists>t. buildLCSTable (split_on newline (or_empty a)) (split_on newline (or_empty b)) = Some t \<and>
     lineOps a b = Some (rev (walk t (split_on newline (or_empty a)) (split_on newline (or_empty b)) makeLineOp
        (length (split_on newline (or_empty a))) (length (split_on newline (or_empty b)))))"
proof -
  obtain t where t: "buildLCSTable (split_on newline (or_empty a)) (split_on newline (or_empty b)) = Some t"
    using buildLCSTable_total by blast
  show ?thesis
    by (simp add: lineOps_def Let_def t backtrackLCS_walk[OF t])
qed

lemma map_update_same: "f y = f (xs ! k) \<Longrightarrow> map f (xs[k := y]) = map f xs"
  by (induction xs arbitrary: k) (auto split: nat.splits)

lemma pair_step_unpaired:
  assumes "k + 1 < length diff"
  shows "\<exists>d'. pair_step k diff = Some d' \<and> map unpaired d' = map unpaired diff"
proof -
  have rd: "at diff (int k) = Some (diff ! k)" "at diff (int k + 1) = Some (diff ! (k + 1))"
    using assms at_int[of k diff] at_int[of "k + 1" diff] by (simp_all add: add.commute)
  show ?thesis
  proof (cases "isChangePair (diff ! k) (diff ! (k + 1)) \<and> pairedWith (diff ! k) = None \<and> pairedWith (diff ! (k + 1)) = None")
    case False
    then show ?thesis using rd by (auto simp: pair_step_def)
  next
    case True
    let ?oldStr = "if line_type (diff ! k) = Removed then content (diff ! k) else content (diff ! (k + 1))"
    let ?newStr = "if line_type (diff ! k) = Added then content (diff ! k) else content (diff ! (k + 1))"
    obtain raw where raw: "getWordDiff ?oldStr ?newStr = Some raw"
      using getWordDiff_total by blast
    let ?d' = "diff[k := (diff ! k)\<lparr>pairedWith := Some (k + 1), segments := Some (coalesce raw)\<rparr>,
                  k + 1 := (diff ! (k + 1))\<lparr>pairedWith := Some k, segments := Some (coalesce raw)\<rparr>]"
    have "pair_step k diff = Some ?d'"
      using True rd raw by (auto simp: pair_step_def Let_def split: if_splits)
    moreover have "map unpaired ?d' = map unpaired diff"
    proof -
      let ?d1 = "diff[k := (diff ! k)\<lparr>pairedWith := Some (k + 1), segments := Some (coalesce raw)\<rparr>]"
      have 1: "map unpaired ?d1 = map unpaired diff"
        by (rule map_update_same) (simp add: unpaired_def)
      have "?d1 ! (k + 1) = diff ! (k + 1)" by simp
      then have "map unpaired (?d1[k + 1 := (diff ! (k + 1))\<lparr>pairedWith := Some k, segments := Some (coalesce raw)\<rparr>])
          = map unpaired ?d1"
        by (intro map_update_same) (simp add: unpaired_def)
      with 1 show ?thesis by simp
    qed
    ultimately show ?thesis by blast
  qed
qed

lemma for_each_pair_step:
  "\<forall>k \<in> set ks. k + 1 < length diff \<Longrightarrow>
     \<exists>d'. for_each pair_step ks diff = Some d' \<and> map unpaired d' = map unpaired diff"
proof (induction ks arbitrary: diff)
  case Nil
  then show ?case by simp
next
  case (Cons k ks)
  then obtain d1 where d1: "pair_step k diff = Some d1" "map unpaired d1 = map unpaired diff"
    using pair_step_unpaired[of k diff] by auto
  then have "length d1 = length diff" by (metis length_map)
  with Cons.prems have "\<forall>k \<in> set ks. k + 1 < length d1" by simp
  from Cons.IH[OF this] obtain d' where "for_each pair_step ks d1 = Some d'" "map unpaired d' = map unpaired d1"
    by blast
  with d1 show ?case by simp
qed

lemma pairing_unpaired: "\<exists>d'. pairing diff = Some d' \<and> map unpaired d' = map unpaired diff"
  unfolding pairing_def by (rule for_each_pair_step) auto

lemma walk_step_cases:
  obtains (stop) "i = 0" "j = 0" "walk t A B mk i j = []"
  | (equal) "0 < i" "0 < j" "A ! (i - 1) = B ! (j - 1)"
      "walk t A B mk i j = mk Equal (Some (int i)) (Some (int j)) (A ! (i - 1)) # walk t A B mk (i - 1) (j - 1)"
  | (added) "0 < j" "walk t A B mk i j = mk Added None (Some (int j)) (B ! (j - 1)) # walk t A B mk i (j - 1)"
  | (removed) "0 < i" "walk t A B mk i j = mk Removed (Some (int i)) None (A ! (i - 1)) # walk t A B mk (i - 1) j"
proof -
  consider (a) "i = 0 \<and> j = 0"
    | (b) "\<not> (i = 0 \<and> j = 0)" "i > 0 \<and> j > 0 \<and> A ! (i - 1) = B ! (j - 1)"
    | (c) "\<not> (i = 0 \<and> j = 0)" "\<not> (i > 0 \<and> j > 0 \<and> A ! (i - 1) = B ! (j - 1))"
          "j > 0 \<and> (i = 0 \<or> t ! i ! (j - 1) \<ge> t ! (i - 1) ! j)"
    | (d) "\<not> (i = 0 \<and> j = 0)" "\<not> (i > 0 \<and> j > 0 \<and> A ! (i - 1) = B ! (j - 1))"
          "\<not> (j > 0 \<and> (i = 0 \<or> t ! i ! (j - 1) \<ge> t ! (i - 1) ! j))"
    by blast
  then show thesis
  proof cases
    case a
    then show ?thesis by (intro stop) (simp_all add: walk_00)
  next
    case b
    then have "walk t A B mk i j = mk Equal (Some (int i)) (Some (int j)) (A ! (i - 1)) # walk t A B mk (i - 1) (j - 1)"
      by (subst walk.simps) auto
    with b show ?thesis by (intro equal) auto
  next
    case c
    then have "walk t A B mk i j = mk Added None (Some (int j)) (B ! (j - 1)) # walk t A B mk i (j - 1)"
      by (subst walk.simps) auto
    with c show ?thesis by (intro added) auto
  next
    case d
    then have "walk t A B mk i j = mk Removed (Some (int i)) None (A ! (i - 1)) # walk t A B mk (i - 1) j"
      by (subst walk.simps) auto
    moreover from d have "0 < i" by auto
    ultimately show ?thesis by (intro removed) auto
  qed
qed

lemma walk_projection:
  "i \<le> length A \<Longrightarrow> j \<le> length B \<Longrightarrow>
     line_kinds (rev (walk t A B makeLineOp i j)) \<and>
     map op_content (filter (\<lambda>x. op_type x = Unchanged \<or> op_type x = Removed) (rev (walk t A B makeLineOp i j))) = take i A \<and>
     map op_content (filter (\<lambda>x. op_type x = Unchanged \<or> op_type x = Added) (rev (walk t A B makeLineOp i j))) = take j B"
proof (induction "i + j" arbitrary: i j rule: less_induct)
  case less
  show ?case
  proof (cases rule: walk_step_cases[of i j t A B makeLineOp])
    case stop
    then show ?thesis by (simp add: line_kinds_def)
  next
    case equal
    note eq = equal(3)
    from equal less.prems have "(i - 1) + (j - 1) < i + j" "i - 1 \<le> length A" "j - 1 \<le> length B" by auto
    from less.hyps[OF this] equal less.prems eq show ?thesis
      using take_Suc_conv_app_nth[of "i - 1" A] take_Suc_conv_app_nth[of "j - 1" B]
      by (auto simp: line_kinds_def makeLineOp_def)
  next
    case added
    with less.prems have "i + (j - 1) < i + j" "i \<le> length A" "j - 1 \<le> length B" by auto
    from less.hyps[OF this] added less.prems show ?thesis
      using take_Suc_conv_app_nth[of "j - 1" B]
      by (auto simp: line_kinds_def makeLineOp_def)
  next
    case removed
    with less.prems have "(i - 1) + j < i + j" "i - 1 \<le> length A" "j \<le> length B" by auto
    from less.hyps[OF this] removed less.prems show ?thesis
      using take_Suc_conv_app_nth[of "i - 1" A]
      by (auto simp: line_kinds_def makeLineOp_def)
  qed
qed

lemma interleave_upto_projection:
  "map content (filter (\<lambda>l. line_type l = Unchanged \<or> line_type l = Removed)
      (concat (map (\<lambda>k. (if k < length removed then [removedLine (removed ! k)] else []) @
                      (if k < length added then [addedLine (added ! k)] else [])) [0..<n])))
     = map op_content (take n removed) \<and>
   map content (filter (\<lambda>l. line_type l = Unchanged \<or> line_type l = Added)
      (concat (map (\<lambda>k. (if k < length removed then [removedLine (removed ! k)] else []) @
                      (if k < length added then [addedLine (added ! k)] else [])) [0..<n])))
     = map op_content (take n added) \<and>
   (\<forall>l \<in> set (concat (map (\<lambda>k. (if k < length removed then [removedLine (removed ! k)] else []) @
                      (if k < length added then [addedLine (added ! k)] else [])) [0..<n])). unpaired l = l)"
proof (induction n)
  case 0
  then show ?case by simp
next
  case (Suc n)
  then show ?case
    by (auto simp: take_Suc_conv_app_nth removedLine_def addedLine_def unpaired_def)
qed

lemma interleave_policy_projection:
  "map content (filter (\<lambda>l. line_type l = Unchanged \<or> line_type l = Removed) (interleave_policy removed added))
     = map op_content removed"
  "map content (filter (\<lambda>l. line_type l = Unchanged \<or> line_type l = Added) (interleave_policy removed added))
     = map op_content added"
  "\<forall>l \<in> set (interleave_policy removed added). unpaired l = l"
  using interleave_upto_projection[of removed added "max (length removed) (length added)"]
  by (simp_all add: interleave_policy_def)

lemma run_filters:
  "filter (\<lambda>x. op_type x = Unchanged \<or> op_type x = Removed) (takeWhile (\<lambda>x. op_type x \<noteq> Unchanged) xs)
     = filter (\<lambda>x. op_type x = Removed) (takeWhile (\<lambda>x. op_type x \<noteq> Unchanged) xs)"
  "filter (\<lambda>x. op_type x = Unchanged \<or> op_type x = Added) (takeWhile (\<lambda>x. op_type x \<noteq> Unchanged) xs)
     = filter (\<lambda>x. op_type x = Added) (takeWhile (\<lambda>x. op_type x \<noteq> Unchanged) xs)"
  by (rule filter_cong[OF refl], auto dest: set_takeWhileD)+

lemma reseq_policy_projection:
  "map content (filter (\<lambda>l. line_type l = Unchanged \<or> line_type l = Removed) (reseq_policy ops))
     = map op_content (filter (\<lambda>x. op_type x = Unchanged \<or> op_type x = Removed) ops) \<and>
   map content (filter (\<lambda>l. line_type l = Unchanged \<or> line_type l = Added) (reseq_policy ops))
     = map op_content (filter (\<lambda>x. op_type x = Unchanged \<or> op_type x = Added) ops) \<and>
   map unpaired (reseq_policy ops) = reseq_policy ops"
proof (induction ops rule: reseq_policy.induct)
  case 1
  then show ?case by (simp add: reseq_policy.simps)
next
  case (2 op ops)
  show ?case
  proof (cases "op_type op = Unchanged")
    case True
    with 2 show ?thesis by (simp add: reseq_policy.simps unchangedLine_def unpaired_def)
  next
    case False
    define run where "run = takeWhile (\<lambda>x. op_type x \<noteq> Unchanged) (op # ops)"
    define rest where "rest = dropWhile (\<lambda>x. op_type x \<noteq> Unchanged) (op # ops)"
    define removed where "removed = filter (\<lambda>x. op_type x = Removed) run"
    define added where "added = filter (\<lambda>x. op_type x = Added) run"
    have IH: "map content (filter (\<lambda>l. line_type l = Unchanged \<or> line_type l = Removed) (reseq_policy rest))
        = map op_content (filter (\<lambda>x. op_type x = Unchanged \<or> op_type x = Removed) rest)"
      "map content (filter (\<lambda>l. line_type l = Unchanged \<or> line_type l = Added) (reseq_policy rest))
        = map op_content (filter (\<lambda>x. op_type x = Unchanged \<or> op_type x = Added) rest)"
      "map unpaired (reseq_policy rest) = reseq_policy rest"
      using "2.IH"(2)[OF False refl refl] unfolding rest_def by blast+
    have split: "op # ops = run @ rest"
      unfolding run_def rest_def by (simp only: takeWhile_dropWhile_id)
    have rp: "reseq_policy (op # ops) = interleave_policy removed added @ reseq_policy rest"
      unfolding removed_def added_def run_def rest_def
      using False by (simp add: reseq_policy.simps Let_def)
    have un: "map unpaired (interleave_policy removed added) = interleave_policy removed added"
      using interleave_policy_projection(3) by (simp add: map_idI)
    have fr: "filter (\<lambda>x. op_type x = Unchanged \<or> op_type x = Removed) run = removed"
      "filter (\<lambda>x. op_type x = Unchanged \<or> op_type x = Added) run = added"
      unfolding removed_def added_def run_def by (rule run_filters)+
    have ops1: "map op_content (filter (\<lambda>x. op_type x = Unchanged \<or> op_type x = Removed) (op # ops))
        = map op_content removed @ map op_content (filter (\<lambda>x. op_type x = Unchanged \<or> op_type x = Removed) rest)"
      by (subst split) (simp only: filter_append map_append fr)
    have ops2: "map op_content (filter (\<lambda>x. op_type x = Unchanged \<or> op_type x = Added) (op # ops))
        = map op_content added @ map op_content (filter (\<lambda>x. op_type x = Unchanged \<or> op_type x = Added) rest)"
      by (subst split) (simp only: filter_append map_append fr)
    show ?thesis
      by (simp only: rp ops1 ops2 filter_append map_append interleave_policy_projection IH un simp_thms)
  qed
qed

lemma unpaired_projection:
  "map content (filter (\<lambda>l. Q (line_type l)) diff) = map content (filter (\<lambda>l. Q (line_type l)) (map unpaired diff))"
  by (induction diff) (simp_all add: unpaired_def)

lemma calculateDiff_reseq:
  "\<exists>t ops diff.
     buildLCSTable (split_on newline (or_empty oldText)) (split_on newline (or_empty newText)) = Some t \<and>
     ops = rev (walk t (split_on newline (or_empty oldText)) (split_on newline (or_empty newText)) makeLineOp
        (length (split_on newline (or_empty oldText))) (length (split_on newline (or_empty newText)))) \<and>
     lineOps oldText newText = Some ops \<and>
     calculateDiff oldText newText = Some diff \<and>
     map unpaired diff = reseq_policy ops"
proof -
  let ?A = "split_on newline (or_empty oldText)" and ?B = "split_on newline (or_empty newText)"
  obtain t where t: "buildLCSTable ?A ?B = Some t"
    and ops: "lineOps oldText newText = Some (rev (walk t ?A ?B makeLineOp (length ?A) (length ?B)))"
    using lineOps_walk by blast
  let ?ops = "rev (walk t ?A ?B makeLineOp (length ?A) (length ?B))"
  have lk: "line_kinds ?ops" using walk_projection[of "length ?A" ?A "length ?B" ?B t] by simp
  have rs: "resequence ?ops 0 [] = Some (reseq_policy ?ops)"
    using resequence_policy[of 0 ?ops "[]", OF _ lk] by simp
  obtain diff where p: "pairing (reseq_policy ?ops) = Some diff"
    and u: "map unpaired diff = map unpaired (reseq_policy ?ops)"
    using pairing_unpaired by blast
  have "calculateDiff oldText newText = Some diff"
    by (simp add: calculateDiff_def ops rs p)
  moreover have "map unpaired diff = reseq_policy ?ops"
    using u reseq_policy_projection[of ?ops] by simp
  ultimately show ?thesis using t ops by blast
qed

text \<open>
  Claim C4. For every input pair the re-sequencing loop of \<open>calculateDiff\<close> returns without
  a fault, and its output, pairing fields apart, is the policy applied to the backtracked
  ops: unchanged ops pass through in order; each maximal run of consecutive ops that are
  not unchanged, with its removed ops and its added ops collected in order, is emitted
  index by index, \<open>removed[k]\<close> if it exists and then \<open>added[k]\<close> if it exists, for
  \<open>k\<close> from 0 to \<open>max(removedCount, addedCount) - 1\<close>.
\<close>

theorem resequencing_policy:
  "\<exists>ops diff. lineOps oldText newText = Some ops \<and> calculateDiff oldText newText = Some diff \<and>
     map unpaired diff = reseq_policy ops"
  using calculateDiff_reseq[of oldText newText] by blast

theorem resequencing_policy_witness:
  "lineOps (Some (''a'' @ [newline] @ ''b'' @ [newline] @ ''z'')) (Some (''x'' @ [newline] @ ''z''))
     = Some [makeLineOp Removed (Some 1) None ''a'', makeLineOp Removed (Some 2) None ''b'',
             makeLineOp Added None (Some 1) ''x'', makeLineOp Equal (Some 3) (Some 2) ''z''] \<and>
   (\<exists>diff. calculateDiff (Some (''a'' @ [newline] @ ''b'' @ [newline] @ ''z'')) (Some (''x'' @ [newline] @ ''z'')) = Some diff \<and>
      map (\<lambda>l. (line_type l, content l)) diff = [(Removed, ''a''), (Added, ''x''), (Removed, ''b''), (Unchanged, ''z'')])"
proof -
  let ?ops = "[makeLineOp Removed (Some 1) None ''a'', makeLineOp Removed (Some 2) None ''b'',
             makeLineOp Added None (Some 1) ''x'', makeLineOp Equal (Some 3) (Some 2) ''z'']"
  have o: "lineOps (Some (''a'' @ [newline] @ ''b'' @ [newline] @ ''z'')) (Some (''x'' @ [newline] @ ''z'')) = Some ?ops"
    by code_simp
  have r: "map (\<lambda>l. (line_type l, content l)) (reseq_policy ?ops) = [(Removed, ''a''), (Added, ''x''), (Removed, ''b''), (Unchanged, ''z'')]"
    by code_simp
  from resequencing_policy[of "Some (''a'' @ [newline] @ ''b'' @ [newline] @ ''z'')" "Some (''x'' @ [newline] @ ''z'')"]
  obtain diff where d: "calculateDiff (Some (''a'' @ [newline] @ ''b'' @ [newline] @ ''z'')) (Some (''x'' @ [newline] @ ''z'')) = Some diff"
    and u: "map unpaired diff = reseq_policy ?ops"
    unfolding o by auto
  have "map (\<lambda>l. (line_type l, content l)) diff = map (\<lambda>l. (line_type l, content l)) (map unpaired diff)"
    by (simp add: unpaired_def)
  with u r have "map (\<lambda>l. (line_type l, content l)) diff = [(Removed, ''a''), (Added, ''x''), (Removed, ''b''), (Unchanged, ''z'')]"
    by simp
  with o d show ?thesis by (intro conjI exI[of _ diff]) simp_all
qed

text \<open>
  Claim C1. Edit-script soundness: for every pair of texts (an absent text counts as the
  empty text), in the sequence \<open>calculateDiff\<close> returns the contents of the unchanged and
  removed lines, in output order, are the lines of the old text, and the contents of the
  unchanged and added lines are the lines of the new text.
\<close>

theorem edit_script_sound:
  "\<exists>diff. calculateDiff oldText newText = Some diff \<and>
     map content (filter (\<lambda>l. line_type l = Unchanged \<or> line_type l = Removed) diff)
       = split_on newline (or_empty oldText) \<and>
     map content (filter (\<lambda>l. line_type l = Unchanged \<or> line_type l = Added) diff)
       = split_on newline (or_empty newText)"
proof -
  let ?A = "split_on newline (or_empty oldText)" and ?B = "split_on newline (or_empty newText)"
  obtain t ops diff where ops: "ops = rev (walk t ?A ?B makeLineOp (length ?A) (length ?B))"
    and d: "calculateDiff oldText newText = Some diff" and u: "map unpaired diff = reseq_policy ops"
    using calculateDiff_reseq[of oldText newText] by blast
  have "map content (filter (\<lambda>l. line_type l = Unchanged \<or> line_type l = Removed) diff) = ?A"
    using unpaired_projection[of "\<lambda>k. k = Unchanged \<or> k = Removed" diff] u
      reseq_policy_projection[of ops] walk_projection[of "length ?A" ?A "length ?B" ?B t] ops
    by simp
  moreover have "map content (filter (\<lambda>l. line_type l = Unchanged \<or> line_type l = Added) diff) = ?B"
    using unpaired_projection[of "\<lambda>k. k = Unchanged \<or> k = Added" diff] u
      reseq_policy_projection[of ops] walk_projection[of "length ?A" ?A "length ?B" ?B t] ops
    by simp
  ultimately show ?thesis using d by blast
qed

theorem edit_script_sound_witness:
  "\<exists>diff. calculateDiff (Some (''a'' @ [newline] @ ''b'' @ [newline] @ ''z'')) (Some (''x'' @ [newline] @ ''z'')) = Some diff \<and>
     map content (filter (\<lambda>l. line_type l = Unchanged \<or> line_type l = Removed) diff) = [''a'', ''b'', ''z''] \<and>
     map content (filter (\<lambda>l. line_type l = Unchanged \<or> line_type l = Added) diff) = [''x'', ''z'']"
proof -
  have a: "split_on newline (or_empty (Some (''a'' @ [newline] @ ''b'' @ [newline] @ ''z''))) = [''a'', ''b'', ''z'']"
    by code_simp
  have b: "split_on newline (or_empty (Some (''x'' @ [newline] @ ''z''))) = [''x'', ''z'']"
    by code_simp
  show ?thesis
    using edit_script_sound[of "Some (''a'' @ [newline] @ ''b'' @ [newline] @ ''z'')" "Some (''x'' @ [newline] @ ''z'')"]
    unfolding a b .
qed

section \<open>The worked diff\<close>

lemma worked_diff_value:
  "calculateDiff (Some (''foo'' @ [newline] @ ''bar'' @ [newline])) (Some (''foo'' @ [newline] @ ''baz'' @ [newline])) =
    Some
     [\<lparr>line_type = Unchanged, oldLine = Some 1, newLine = Some 1, content = ''foo'',
         pairedWith = None, segments = None\<rparr>,
      \<lparr>line_type = Removed, oldLine = Some 2, newLine = None, content = ''bar'',
         pairedWith = Some 2,
         segments = Some [\<lparr>seg_value = ''bar'', seg_type = Removed\<rparr>, \<lparr>seg_value = ''baz'', seg_type = Added\<rparr>]\<rparr>,
      \<lparr>line_type = Added, oldLine = None, newLine = Some 2, content = ''baz'',
         pairedWith = Some 1,
         segments = Some [\<lparr>seg_value = ''bar'', seg_type = Removed\<rparr>, \<lparr>seg_value = ''baz'', seg_type = Added\<rparr>]\<rparr>,
      \<lparr>line_type = Unchanged, oldLine = Some 3, newLine = Some 3, content = [],
         pairedWith = None, segments = None\<rparr>]"
  by code_simp

text \<open>
  The claim as stated, three lines with exactly one unchanged line, does not hold: the
  split keeps the empty piece after the trailing newline, and it is a fourth line.
\<close>

theorem worked_diff_counterexample:
  "map_option (map (\<lambda>l. (line_type l, content l)))
     (calculateDiff (Some (''foo'' @ [newline] @ ''bar'' @ [newline])) (Some (''foo'' @ [newline] @ ''baz'' @ [newline])))
   \<noteq> Some [(Unchanged, ''foo''), (Removed, ''bar''), (Added, ''baz'')]"
  unfolding worked_diff_value by simp

text \<open>
  Claim C5, as amended. The diff of the text \<open>foo\<close>, newline, \<open>bar\<close>, newline against the text
  \<open>foo\<close>, newline, \<open>baz\<close>, newline has four lines: unchanged \<open>foo\<close>, removed \<open>bar\<close>, added \<open>baz\<close>, and the unchanged empty line
  that follows the trailing newline; \<open>bar\<close> and \<open>baz\<close> refer to each other.
\<close>

theorem worked_diff_example:
  "map_option (map (\<lambda>l. (line_type l, content l, pairedWith l)))
     (calculateDiff (Some (''foo'' @ [newline] @ ''bar'' @ [newline])) (Some (''foo'' @ [newline] @ ''baz'' @ [newline])))
   = Some [(Unchanged, ''foo'', None), (Removed, ''bar'', Some 2), (Added, ''baz'', Some 1), (Unchanged, [], None)]"
  unfolding worked_diff_value by simp

lemma for_each_chunk_step:
  "\<forall>i \<in> set ks. i < length diff \<Longrightarrow>
     for_each (chunk_step diff) ks st = Some (foldl (\<lambda>st d. chunk_pure d st) st (map ((!) diff) ks))"
proof (induction ks arbitrary: st)
  case Nil
  then show ?case by simp
next
  case (Cons k ks)
  then have "chunk_step diff k st = Some (chunk_pure (diff ! k) st)"
    by (cases st) (simp add: chunk_step_def chunk_pure_def at_int Let_def)
  with Cons show ?case by simp
qed

lemma chunk_pure_inv:
  assumes "chunk_pure d (chunks, cur) = (chunks', cur')"
    and "\<forall>c \<in> set (chunks @ [cur]). chunk_ok c"
  shows "concat (map chunk_lines (chunks' @ [cur'])) = concat (map chunk_lines (chunks @ [cur])) @ [d]
     \<and> (\<forall>c \<in> set (chunks' @ [cur']). chunk_ok c)"
  using assms by (auto simp: chunk_pure_def chunk_ok_def split: if_splits)

lemma foldl_chunk_pure_inv:
  "foldl (\<lambda>st d. chunk_pure d st) (chunks, cur) ds = (chunks', cur') \<Longrightarrow>
   \<forall>c \<in> set (chunks @ [cur]). chunk_ok c \<Longrightarrow>
   concat (map chunk_lines (chunks' @ [cur'])) = concat (map chunk_lines (chunks @ [cur])) @ ds
     \<and> (\<forall>c \<in> set (chunks' @ [cur']). chunk_ok c)"
proof (induction ds arbitrary: chunks cur)
  case Nil
  then show ?case by simp
next
  case (Cons d ds)
  obtain c1 k1 where s: "chunk_pure d (chunks, cur) = (c1, k1)" by (cases "chunk_pure d (chunks, cur)")
  from chunk_pure_inv[OF s Cons.prems(2)] Cons.IH[of c1 k1] Cons.prems(1) s
  show ?case by simp
qed

text \<open>
  Claim C8. For every sequence of diff lines \<open>chunkifyDiff\<close> returns chunks whose lines,
  concatenated, are the input in its order; every chunk has at least one line; and no chunk
  holds both an unchanged line and a line that is not unchanged.
\<close>

theorem chunkify_invariants:
  "\<exists>chunks. chunkifyDiff diff = Some chunks \<and>
     concat (map chunk_lines chunks) = diff \<and>
     (\<forall>c \<in> set chunks. chunk_lines c \<noteq> [] \<and>
        ((\<forall>l \<in> set (chunk_lines c). line_type l = Unchanged) \<or>
         (\<forall>l \<in> set (chunk_lines c). line_type l \<noteq> Unchanged)))"
proof (cases diff)
  case Nil
  then show ?thesis by (simp add: chunkifyDiff_def)
next
  case (Cons d0 ds)
  let ?c0 = "\<lparr>chunk_type = line_type d0, chunk_lines = [d0]\<rparr>"
  obtain chunks cur where f: "foldl (\<lambda>st d. chunk_pure d st) ([], ?c0) ds = (chunks, cur)"
    by (cases "foldl (\<lambda>st d. chunk_pure d st) ([], ?c0) ds")
  have idx: "map ((!) diff) [1..<length diff] = ds"
  proof -
    have "map ((!) (d0 # ds)) [Suc 0..<Suc (length ds)] = map ((!) (d0 # ds)) (map Suc [0..<length ds])"
      by (simp only: map_Suc_upt)
    also have "\<dots> = map ((!) ds) [0..<length ds]" by simp
    also have "\<dots> = ds" by (rule map_nth)
    finally show ?thesis using Cons by simp
  qed
  have "for_each (chunk_step diff) [1..<length diff] ([], ?c0) = Some (chunks, cur)"
    using for_each_chunk_step[of "[1..<length diff]" diff "([], ?c0)"] f idx by simp
  then have r: "chunkifyDiff diff = Some (chunks @ [cur])"
    using Cons by (simp add: chunkifyDiff_def at_def)
  have "\<forall>c \<in> set ([] @ [?c0]). chunk_ok c" by (simp add: chunk_ok_def)
  from foldl_chunk_pure_inv[OF f this]
  have "concat (map chunk_lines (chunks @ [cur])) = diff" and ok: "\<forall>c \<in> set (chunks @ [cur]). chunk_ok c"
    using Cons by simp_all
  moreover have "chunk_lines c \<noteq> [] \<and>
        ((\<forall>l \<in> set (chunk_lines c). line_type l = Unchanged) \<or>
         (\<forall>l \<in> set (chunk_lines c). line_type l \<noteq> Unchanged))" if "chunk_ok c" for c
    using that by (auto simp: chunk_ok_def split: if_splits)
  ultimately show ?thesis using r by blast
qed

theorem chunkify_invariants_witness:
  "\<exists>chunks. chunkifyDiff (reseq_policy [makeLineOp Equal (Some 1) (Some 1) ''a'', makeLineOp Removed (Some 2) None ''b'',
        makeLineOp Added None (Some 2) ''c'']) = Some chunks \<and>
     map (map content \<circ> chunk_lines) chunks = [[''a''], [''b'', ''c'']]"
proof -
  let ?d = "reseq_policy [makeLineOp Equal (Some 1) (Some 1) ''a'', makeLineOp Removed (Some 2) None ''b'',
        makeLineOp Added None (Some 2) ''c'']"
  have e: "map_option (map (map content \<circ> chunk_lines)) (chunkifyDiff ?d) = Some [[''a''], [''b'', ''c'']]"
    by code_simp
  from chunkify_invariants[of ?d] obtain chunks where "chunkifyDiff ?d = Some chunks" by blast
  with e show ?thesis by auto
qed

section \<open>Coalesced word segments\<close>

lemma at_last: "at (acc @ [s]) (int (length (acc @ [s])) - 1) = Some s"
  by (simp add: at_def nat_diff_distrib')

lemma coalesce_step_snoc:
  "coalesce_step (acc @ [s]) t =
     (if seg_type s = seg_type t then acc @ [s\<lparr>seg_value := seg_value s @ seg_value t\<rparr>]
      else acc @ [s, t])"
  unfolding coalesce_step_def at_last by simp

lemma foldl_coalesce_step:
  "foldl coalesce_step (acc @ [s]) raw = acc @ mergeRuns (s # raw)"
proof (induction raw arbitrary: acc s)
  case Nil
  then show ?case by simp
next
  case (Cons t raw)
  show ?case
  proof (cases "seg_type s = seg_type t")
    case True
    then show ?thesis using Cons[of acc "s\<lparr>seg_value := seg_value s @ seg_value t\<rparr>"]
      by (simp add: coalesce_step_snoc)
  next
    case False
    then show ?thesis using Cons[of "acc @ [s]" t]
      by (simp add: coalesce_step_snoc)
  qed
qed

lemma coalesce_mergeRuns: "coalesce raw = mergeRuns raw"
proof (cases raw)
  case Nil
  then show ?thesis by (simp add: coalesce_def)
next
  case (Cons s rest)
  have "coalesce_step [] s = [] @ [s]" by (simp add: coalesce_step_def at_def)
  then show ?thesis using foldl_coalesce_step[of "[]" s rest] Cons
    by (simp add: coalesce_def)
qed

lemma mergeRuns_hd_type: "raw \<noteq> [] \<Longrightarrow> mergeRuns raw \<noteq> [] \<and> seg_type (hd (mergeRuns raw)) = seg_type (hd raw)"
  by (induction raw rule: mergeRuns.induct) auto

lemma mergeRuns_distinct_adj: "distinct_adj (map seg_type (mergeRuns raw))"
proof (induction raw rule: mergeRuns.induct)
  case (3 s t rest)
  show ?case
  proof (cases "seg_type s = seg_type t")
    case True
    with 3 show ?thesis by simp
  next
    case False
    with 3 mergeRuns_hd_type[of "t # rest"] show ?thesis
      by (cases "mergeRuns (t # rest)") (auto simp: distinct_adj_Cons)
  qed
qed simp_all

lemma changePair_strs:
  "isChangePair a b \<Longrightarrow> oldStrOf b a = oldStrOf a b \<and> newStrOf b a = newStrOf a b \<and> isChangePair b a"
  by (auto simp: isChangePair_def oldStrOf_def newStrOf_def)

lemma pair_step_inv:
  assumes k: "k + 1 < length diff" and inv: "pair_inv diff"
  shows "\<exists>d'. pair_step k diff = Some d' \<and> length d' = length diff \<and> pair_inv d'"
proof -
  have rd: "at diff (int k) = Some (diff ! k)" "at diff (int k + 1) = Some (diff ! (k + 1))"
    using k at_int[of k diff] at_int[of "k + 1" diff] by (simp_all add: add.commute)
  let ?c = "diff ! k" and ?n = "diff ! (k + 1)"
  show ?thesis
  proof (cases "isChangePair ?c ?n \<and> pairedWith ?c = None \<and> pairedWith ?n = None")
    case False
    then have "pair_step k diff = Some diff" using rd by (auto simp: pair_step_def)
    with inv show ?thesis by simp
  next
    case True
    obtain raw where raw: "getWordDiff (oldStrOf ?c ?n) (newStrOf ?c ?n) = Some raw"
      using getWordDiff_total by blast
    define c' where "c' = ?c\<lparr>pairedWith := Some (k + 1), segments := Some (coalesce raw)\<rparr>"
    define n' where "n' = ?n\<lparr>pairedWith := Some k, segments := Some (coalesce raw)\<rparr>"
    define d' where "d' = diff[k := c', k + 1 := n']"
    have step: "pair_step k diff = Some d'"
      using True rd raw unfolding d'_def c'_def n'_def oldStrOf_def newStrOf_def
      by (auto simp: pair_step_def Let_def split: if_splits)
    have len: "length d' = length diff" by (simp add: d'_def)
    have dk: "d' ! k = c'" and dk1: "d' ! (k + 1) = n'"
      using k by (simp_all add: d'_def)
    have other: "d' ! j = diff ! j" if "j \<noteq> k" "j \<noteq> k + 1" for j
      using that by (simp add: d'_def)
    have same: "line_type c' = line_type ?c" "content c' = content ?c"
        "line_type n' = line_type ?n" "content n' = content ?n"
      by (simp_all add: c'_def n'_def)
    have strs: "oldStrOf c' n' = oldStrOf ?c ?n" "newStrOf c' n' = newStrOf ?c ?n" "isChangePair c' n'"
      using True same by (simp_all add: oldStrOf_def newStrOf_def isChangePair_def)
    have "paired_ok d' j" if j: "j < length d'" for j
    proof -
      consider (a) "j = k" | (b) "j = k + 1" | (c) "j \<noteq> k" "j \<noteq> k + 1" by blast
      then show ?thesis
      proof cases
        case a
        have "pairedWith c' = Some (k + 1)" "segments c' = Some (coalesce raw)" "pairedWith n' = Some k"
          by (simp_all add: c'_def n'_def)
        then show ?thesis using a k len dk dk1 strs raw
          by (simp add: paired_ok_def)
      next
        case b
        have "pairedWith c' = Some (k + 1)" "segments n' = Some (coalesce raw)" "pairedWith n' = Some k"
          by (simp_all add: c'_def n'_def)
        then show ?thesis using b k len dk dk1 strs raw changePair_strs[OF strs(3)]
          by (simp add: paired_ok_def)
      next
        case c
        from inv j len have ok: "paired_ok diff j" by (simp add: pair_inv_def)
        show ?thesis
        proof (cases "pairedWith (diff ! j)")
          case None
          with ok c show ?thesis by (simp add: paired_ok_def other)
        next
          case (Some p)
          with ok have p: "p < length diff" "pairedWith (diff ! p) = Some j"
            by (simp_all add: paired_ok_def)
          with True have "p \<noteq> k" "p \<noteq> k + 1" by auto
          then have "d' ! p = diff ! p" by (rule other)
          with ok c Some len show ?thesis by (simp add: paired_ok_def other)
        qed
      qed
    qed
    then have "pair_inv d'" by (simp add: pair_inv_def)
    with step len show ?thesis by blast
  qed
qed

lemma for_each_pair_step_inv:
  "\<forall>k \<in> set ks. k + 1 < length diff \<Longrightarrow> pair_inv diff \<Longrightarrow>
     \<exists>d'. for_each pair_step ks diff = Some d' \<and> pair_inv d'"
proof (induction ks arbitrary: diff)
  case Nil
  then show ?case by simp
next
  case (Cons k ks)
  then obtain d1 where d1: "pair_step k diff = Some d1" "length d1 = length diff" "pair_inv d1"
    using pair_step_inv[of k diff] by auto
  with Cons.prems have "\<forall>k \<in> set ks. k + 1 < length d1" by simp
  from Cons.IH[OF this d1(3)] d1(1) show ?case by simp
qed

lemma pairing_inv: "pair_inv diff \<Longrightarrow> \<exists>d'. pairing diff = Some d' \<and> pair_inv d'"
  unfolding pairing_def by (rule for_each_pair_step_inv) auto

lemma reseq_policy_pair_inv: "pair_inv (reseq_policy ops)"
proof -
  have "map unpaired (reseq_policy ops) = reseq_policy ops"
    using reseq_policy_projection[of ops] by simp
  then have "\<forall>k < length (reseq_policy ops). unpaired (reseq_policy ops ! k) = reseq_policy ops ! k"
    by (metis nth_map)
  then have "\<forall>k < length (reseq_policy ops). pairedWith (reseq_policy ops ! k) = None \<and> segments (reseq_policy ops ! k) = None"
    by (metis (no_types, lifting) unpaired_def diffline.select_convs(5,6) diffline.surjective diffline.update_convs(5,6))
  then show ?thesis by (simp add: pair_inv_def paired_ok_def)
qed

lemma calculateDiff_as_pairing: "\<exists>ops. calculateDiff oldText newText = pairing (reseq_policy ops)"
proof -
  let ?A = "split_on newline (or_empty oldText)" and ?B = "split_on newline (or_empty newText)"
  obtain t where ops: "lineOps oldText newText = Some (rev (walk t ?A ?B makeLineOp (length ?A) (length ?B)))"
    using lineOps_walk by blast
  let ?ops = "rev (walk t ?A ?B makeLineOp (length ?A) (length ?B))"
  have lk: "line_kinds ?ops" using walk_projection[of "length ?A" ?A "length ?B" ?B t] by simp
  have rs: "resequence ?ops 0 [] = Some (reseq_policy ?ops)"
    using resequence_policy[of 0 ?ops "[]", OF _ lk] by simp
  have "calculateDiff oldText newText = pairing (reseq_policy ?ops)"
    by (simp add: calculateDiff_def ops rs)
  then show ?thesis by blast
qed

text \<open>
  Claim C9. For every line of a diff that carries cached segments: no two adjacent segments
  have the same kind; the line is paired with an adjacent line of the opposite change kind
  that carries the same segments; and the segments are the raw word diff of the removed
  line's content against the added line's content with adjacent segments of the same kind
  merged by concatenating their values.
\<close>

theorem coalesced_segments:
  assumes "calculateDiff oldText newText = Some diff" and "k < length diff"
    and "segments (diff ! k) = Some segs"
  shows "distinct_adj (map seg_type segs) \<and>
     (\<exists>p raw. pairedWith (diff ! k) = Some p \<and> p < length diff \<and> isChangePair (diff ! k) (diff ! p) \<and>
        segments (diff ! p) = Some segs \<and>
        getWordDiff (oldStrOf (diff ! k) (diff ! p)) (newStrOf (diff ! k) (diff ! p)) = Some raw \<and>
        segs = mergeRuns raw)"
proof -
  obtain ops where "calculateDiff oldText newText = pairing (reseq_policy ops)"
    using calculateDiff_as_pairing by blast
  with assms(1) pairing_inv[OF reseq_policy_pair_inv, of ops] have inv: "pair_inv diff" by auto
  with assms(2) have ok: "paired_ok diff k" by (simp add: pair_inv_def)
  with assms(3) obtain p raw where p: "pairedWith (diff ! k) = Some p" "p < length diff"
      "pairedWith (diff ! p) = Some k" "isChangePair (diff ! k) (diff ! p)"
      "getWordDiff (oldStrOf (diff ! k) (diff ! p)) (newStrOf (diff ! k) (diff ! p)) = Some raw"
      "segs = coalesce raw"
    by (cases "pairedWith (diff ! k)") (auto simp: paired_ok_def)
  from inv p(2) have "paired_ok diff p" by (simp add: pair_inv_def)
  with p(3) obtain raw' where
      "getWordDiff (oldStrOf (diff ! p) (diff ! k)) (newStrOf (diff ! p) (diff ! k)) = Some raw'"
      "segments (diff ! p) = Some (coalesce raw')"
    by (auto simp: paired_ok_def)
  with p(5) changePair_strs[OF p(4)] have "segments (diff ! p) = Some (coalesce raw)" by simp
  with p show ?thesis
    by (auto simp: coalesce_mergeRuns mergeRuns_distinct_adj)
qed

lemma word_diff_value:
  "calculateDiff (Some ''a b c'') (Some ''a x c'') =
    Some
     [\<lparr>line_type = Removed, oldLine = Some 1, newLine = None, content = ''a b c'', pairedWith = Some 1,
         segments = Some [\<lparr>seg_value = ''a '', seg_type = Equal\<rparr>, \<lparr>seg_value = ''b'', seg_type = Removed\<rparr>,
                          \<lparr>seg_value = ''x'', seg_type = Added\<rparr>, \<lparr>seg_value = '' c'', seg_type = Equal\<rparr>]\<rparr>,
      \<lparr>line_type = Added, oldLine = None, newLine = Some 1, content = ''a x c'', pairedWith = Some 0,
         segments = Some [\<lparr>seg_value = ''a '', seg_type = Equal\<rparr>, \<lparr>seg_value = ''b'', seg_type = Removed\<rparr>,
                          \<lparr>seg_value = ''x'', seg_type = Added\<rparr>, \<lparr>seg_value = '' c'', seg_type = Equal\<rparr>]\<rparr>]"
  by code_simp

theorem coalesced_segments_witness:
  "distinct_adj [Equal, Removed, Added, Equal] \<and>
   map_option (map (map_option (map seg_value) \<circ> segments)) (calculateDiff (Some ''a b c'') (Some ''a x c''))
     = Some [Some [''a '', ''b'', ''x'', '' c''], Some [''a '', ''b'', ''x'', '' c'']]"
proof -
  let ?segs = "[\<lparr>seg_value = ''a '', seg_type = Equal\<rparr>, \<lparr>seg_value = ''b'', seg_type = Removed\<rparr>,
                \<lparr>seg_value = ''x'', seg_type = Added\<rparr>, \<lparr>seg_value = '' c'', seg_type = Equal\<rparr>]"
  have "distinct_adj (map seg_type ?segs)"
    by (rule conjunct1[OF coalesced_segments[OF word_diff_value, of 0 ?segs]]) simp_all
  then show ?thesis unfolding word_diff_value by simp
qed

section \<open>The file matcher\<close>

lemma compareKeys_total: "compareKeys a b \<le> 0 \<or> compareKeys b a \<le> 0"
  by (induction a b rule: compareKeys.induct) auto

lemma compareKeys_trans: "compareKeys a b \<le> 0 \<Longrightarrow> compareKeys b c \<le> 0 \<Longrightarrow> compareKeys a c \<le> 0"
proof (induction a arbitrary: b c)
  case Nil
  then show ?case by (cases c) simp_all
next
  case (Cons x xs)
  from Cons.prems(1) obtain y ys where b: "b = y # ys" by (cases b) auto
  from Cons.prems(2) b obtain z zs where c: "c = z # zs" by (cases c) auto
  from Cons.prems(1) b have xy: "x < y \<or> (x = y \<and> compareKeys xs ys \<le> 0)"
    by (simp split: if_splits)
  from Cons.prems(2) b c have yz: "y < z \<or> (y = z \<and> compareKeys ys zs \<le> 0)"
    by (simp split: if_splits)
  from xy yz have "x < z \<or> (x = z \<and> compareKeys xs ys \<le> 0 \<and> compareKeys ys zs \<le> 0)"
    by auto
  then show ?case
  proof
    assume "x < z" then show ?thesis using c by simp
  next
    assume h: "x = z \<and> compareKeys xs ys \<le> 0 \<and> compareKeys ys zs \<le> 0"
    then have "compareKeys xs zs \<le> 0" using Cons.IH by blast
    with h c show ?thesis by simp
  qed
qed

lemma consistent_keys: "consistent (\<lambda>a b. compareKeys (f a) (f b))"
  unfolding consistent_def
proof (intro conjI allI impI)
  fix x y show "compareKeys (f x) (f y) \<le> 0 \<or> compareKeys (f y) (f x) \<le> 0"
    by (rule compareKeys_total)
next
  fix x y z assume "compareKeys (f x) (f y) \<le> 0 \<and> compareKeys (f y) (f z) \<le> 0"
  then show "compareKeys (f x) (f z) \<le> 0"
    using compareKeys_trans[of "f x" "f y" "f z"] by simp
qed

lemma consistent_codeUnitCompare: "consistent codeUnitCompare"
proof -
  have "codeUnitCompare = (\<lambda>a b. compareKeys (map code a) (map code b))"
    by (intro ext) (simp add: codeUnitCompare_def)
  moreover have "consistent (\<lambda>a b. compareKeys (map code a) (map code b))"
    by (rule consistent_keys)
  ultimately show ?thesis by simp
qed

lemma consistent_collationCompare: "consistent collationCompare"
proof -
  have "collationCompare = (\<lambda>a b. compareKeys (map collationKey a) (map collationKey b))"
    by (intro ext) (simp add: collationCompare_def)
  moreover have "consistent (\<lambda>a b. compareKeys (map collationKey a) (map collationKey b))"
    by (rule consistent_keys)
  ultimately show ?thesis by simp
qed

lemma set_insertBy: "set (insertBy cmp x ys) = insert x (set ys)"
  by (induction ys) auto

lemma sorted_insertBy:
  assumes "consistent cmp" "sorted_wrt (\<lambda>a b. cmp a b \<le> 0) ys"
  shows "sorted_wrt (\<lambda>a b. cmp a b \<le> 0) (insertBy cmp x ys)"
  using assms(2)
proof (induction ys)
  case Nil
  then show ?case by simp
next
  case (Cons y ys)
  from assms(1) have tot: "\<And>a b. cmp a b \<le> 0 \<or> cmp b a \<le> 0"
    and tr: "\<And>a b c. cmp a b \<le> 0 \<Longrightarrow> cmp b c \<le> 0 \<Longrightarrow> cmp a c \<le> 0"
    unfolding consistent_def by blast+
  show ?case
  proof (cases "cmp x y \<le> 0")
    case True
    with Cons.prems tr[of x y] show ?thesis by auto
  next
    case False
    with tot[of x y] have "cmp y x \<le> 0" by simp
    with False Cons show ?thesis by (auto simp: set_insertBy)
  qed
qed

lemma sorted_sortBy: "consistent cmp \<Longrightarrow> sorted_wrt (\<lambda>a b. cmp a b \<le> 0) (sortBy cmp xs)"
  unfolding sortBy_def by (induction xs) (simp_all add: sorted_insertBy)

lemma consistent_on_slug: "consistent cmp \<Longrightarrow> consistent (\<lambda>a b. cmp (pair_slug a) (pair_slug b))"
  unfolding consistent_def by blast

text \<open>
  Claim C7, as amended. For every consistent comparator \<open>localeCompare\<close> and every pair of
  file collections, the pairs the matcher returns are sorted by slug in the comparator's
  order: an earlier pair's slug never compares greater than a later pair's slug.
\<close>

theorem matcher_sorted:
  assumes "consistent localeCompare" and "matchedPairs localeCompare v1Files v2Files = Some pairs"
  shows "sorted_wrt (\<lambda>a b. localeCompare (pair_slug a) (pair_slug b) \<le> 0) pairs"
proof (cases "length v1Files = 0 \<and> length v2Files = 0")
  case True
  with assms(2) show ?thesis by (simp add: matchedPairs_def)
next
  case False
  with assms(2) obtain ps where "pairs = sortBy (\<lambda>a b. localeCompare (pair_slug a) (pair_slug b)) ps"
    by (auto simp: matchedPairs_def Let_def bind_eq_Some_conv)
  then show ?thesis using sorted_sortBy[OF consistent_on_slug[OF assms(1)]] by simp
qed

lemma slug_examples:
  "getFileSlug ''a_v1.js'' = Some ''a''"
  "getFileSlug ''util-legacy.js'' = Some ''util''"
  "getFileSlug ''a_v2.js'' = Some ''a''"
  "getFileSlug ''util-modern.js'' = Some ''util''"
  "getFileSlug ''new.js'' = Some ''new''"
  by code_simp+

text \<open>
  Claim C6. Base files with paths \<open>a_v1.js\<close> and \<open>util-legacy.js\<close>, target files with
  paths \<open>a_v2.js\<close>, \<open>util-modern.js\<close> and \<open>new.js\<close>: under a comparator that puts the
  three slugs in alphabetical order the matcher returns exactly three pairs, \<open>a\<close> modified,
  \<open>new\<close> added, \<open>util\<close> modified, in this order.
\<close>

theorem matcher_example:
  assumes paths: "path b1 = ''a_v1.js''" "path b2 = ''util-legacy.js''"
      "path t1 = ''a_v2.js''" "path t2 = ''util-modern.js''" "path t3 = ''new.js''"
    and order: "localeCompare ''a'' ''new'' < 0" "localeCompare ''new'' ''util'' < 0"
      "localeCompare ''a'' ''util'' < 0" "localeCompare ''new'' ''a'' > 0"
      "localeCompare ''util'' ''new'' > 0" "localeCompare ''util'' ''a'' > 0"
  shows "matchedPairs localeCompare [b1, b2] [t1, t2, t3] =
     Some [\<lparr>pair_type = Modified, pair_slug = ''a'', v1 = Some b1, v2 = Some t1\<rparr>,
           \<lparr>pair_type = AddedFile, pair_slug = ''new'', v1 = None, v2 = Some t3\<rparr>,
           \<lparr>pair_type = Modified, pair_slug = ''util'', v1 = Some b2, v2 = Some t2\<rparr>]"
proof -
  have m1: "buildFileMap [b1, b2] = Some [(''a'', [b1]), (''util'', [b2])]"
    by (simp add: buildFileMap_def buildFileMap_step_def mapGet_def paths slug_examples)
  have m2: "buildFileMap [t1, t2, t3] = Some [(''a'', [t1]), (''util'', [t2]), (''new'', [t3])]"
    by (simp add: buildFileMap_def buildFileMap_step_def mapGet_def paths slug_examples)
  have s: "newSet [''a'', ''util'', ''a'', ''util'', ''new''] = [''a'', ''util'', ''new'']"
    by (simp add: newSet_def)
  have p: "pairFor [(''a'', [b1]), (''util'', [b2])] [(''a'', [t1]), (''util'', [t2]), (''new'', [t3])] ''a''
        = Some \<lparr>pair_type = Modified, pair_slug = ''a'', v1 = Some b1, v2 = Some t1\<rparr>"
    "pairFor [(''a'', [b1]), (''util'', [b2])] [(''a'', [t1]), (''util'', [t2]), (''new'', [t3])] ''util''
        = Some \<lparr>pair_type = Modified, pair_slug = ''util'', v1 = Some b2, v2 = Some t2\<rparr>"
    "pairFor [(''a'', [b1]), (''util'', [b2])] [(''a'', [t1]), (''util'', [t2]), (''new'', [t3])] ''new''
        = Some \<lparr>pair_type = AddedFile, pair_slug = ''new'', v1 = None, v2 = Some t3\<rparr>"
    by (simp_all add: pairFor_def mapGet_def at_def)
  show ?thesis
    using order by (simp add: matchedPairs_def m1 m2 s p sortBy_def)
qed

lemma matcher_value:
  "matchedPairs codeUnitCompare [fileAt ''a_v1.js'', fileAt ''util-legacy.js'']
      [fileAt ''a_v2.js'', fileAt ''util-modern.js'', fileAt ''new.js''] =
     Some [\<lparr>pair_type = Modified, pair_slug = ''a'', v1 = Some (fileAt ''a_v1.js''), v2 = Some (fileAt ''a_v2.js'')\<rparr>,
           \<lparr>pair_type = AddedFile, pair_slug = ''new'', v1 = None, v2 = Some (fileAt ''new.js'')\<rparr>,
           \<lparr>pair_type = Modified, pair_slug = ''util'', v1 = Some (fileAt ''util-legacy.js''), v2 = Some (fileAt ''util-modern.js'')\<rparr>]"
  by code_simp

theorem matcher_example_witness:
  "codeUnitCompare ''a'' ''new'' < 0 \<and> codeUnitCompare ''new'' ''util'' < 0 \<and> codeUnitCompare ''a'' ''util'' < 0 \<and>
   codeUnitCompare ''new'' ''a'' > 0 \<and> codeUnitCompare ''util'' ''new'' > 0 \<and> codeUnitCompare ''util'' ''a'' > 0 \<and>
   map_option (map (\<lambda>p. (pair_slug p, pair_type p)))
     (matchedPairs codeUnitCompare [fileAt ''a_v1.js'', fileAt ''util-legacy.js'']
        [fileAt ''a_v2.js'', fileAt ''util-modern.js'', fileAt ''new.js''])
     = Some [(''a'', Modified), (''new'', AddedFile), (''util'', Modified)]"
proof -
  have o: "codeUnitCompare ''a'' ''new'' < 0" "codeUnitCompare ''new'' ''util'' < 0"
      "codeUnitCompare ''a'' ''util'' < 0" "codeUnitCompare ''new'' ''a'' > 0"
      "codeUnitCompare ''util'' ''new'' > 0" "codeUnitCompare ''util'' ''a'' > 0"
    by code_simp+
  have p: "path (fileAt ''a_v1.js'') = ''a_v1.js''" "path (fileAt ''util-legacy.js'') = ''util-legacy.js''"
      "path (fileAt ''a_v2.js'') = ''a_v2.js''" "path (fileAt ''util-modern.js'') = ''util-modern.js''"
      "path (fileAt ''new.js'') = ''new.js''"
    by (simp_all add: fileAt_def)
  show ?thesis
    using o by (simp add: matcher_example[OF p o])
qed

theorem matcher_sorted_witness:
  "consistent codeUnitCompare \<and>
   sorted_wrt (\<lambda>a b. codeUnitCompare (pair_slug a) (pair_slug b) \<le> 0)
     [\<lparr>pair_type = Modified, pair_slug = ''a'', v1 = Some (fileAt ''a_v1.js''), v2 = Some (fileAt ''a_v2.js'')\<rparr>,
      \<lparr>pair_type = AddedFile, pair_slug = ''new'', v1 = None, v2 = Some (fileAt ''new.js'')\<rparr>,
      \<lparr>pair_type = Modified, pair_slug = ''util'', v1 = Some (fileAt ''util-legacy.js''), v2 = Some (fileAt ''util-modern.js'')\<rparr>]"
  using consistent_codeUnitCompare matcher_sorted[OF consistent_codeUnitCompare matcher_value]
  by (intro conjI)

lemma collation_value:
  "map_option (map pair_slug) (matchedPairs collationCompare [fileAt ''a1b.js''] [fileAt ''a_b.js''])
     = Some [''a_b'', ''a1b'']"
  by code_simp

text \<open>
  The claim as stated, sorted lexicographically on the slug string, does not hold: the
  order is the comparator's. Under a collation that puts punctuation before digits the
  slug \<open>a_b\<close> comes before \<open>a1b\<close>, while by code unit \<open>a1b\<close> is the smaller string.
\<close>

theorem matcher_order_counterexample:
  "map_option (map pair_slug) (matchedPairs collationCompare [fileAt ''a1b.js''] [fileAt ''a_b.js''])
     = Some [''a_b'', ''a1b''] \<and>
   \<not> codeUnitCompare ''a_b'' ''a1b'' \<le> 0"
proof -
  have "codeUnitCompare ''a_b'' ''a1b'' = 1" by code_simp
  then show ?thesis using collation_value by simp
qed

section \<open>Totality\<close>

lemma split_on_nonempty: "split_on sep s \<noteq> []"
  by (induction s) (auto split: list.splits)

lemma getFileSlug_total: "\<exists>s. getFileSlug p = Some s"
proof -
  have "0 < length (split_on (CHR ''/'') p)" using split_on_nonempty[of "CHR ''/''" p] by simp
  then show ?thesis by (simp add: getFileSlug_def Let_def at_def)
qed

lemma map_of_update_key:
  "map_of (map (\<lambda>(k, v). if k = s then (k, w) else (k, v)) m) k =
     (if k = s then map_option (\<lambda>_. w) (map_of m k) else map_of m k)"
  by (induction m) auto

lemma buildFileMap_step_total:
  assumes "slug_lists_ok m"
  shows "\<exists>m'. buildFileMap_step f m = Some m' \<and> slug_lists_ok m'"
proof -
  obtain s where s: "getFileSlug (path f) = Some s" using getFileSlug_total by blast
  define m1 where "m1 = (if mapGet m s = None then m @ [(s, [])] else m)"
  obtain fs where fs: "mapGet m1 s = Some fs"
    unfolding m1_def mapGet_def by (cases "map_of m s") (auto simp: map_add_def)
  have other: "map_of m1 k = map_of m k" if "k \<noteq> s" for k
    using that unfolding m1_def mapGet_def by (auto simp: map_add_def split: option.splits)
  let ?m' = "map (\<lambda>(k, v). if k = s then (k, fs @ [f]) else (k, v)) m1"
  have "buildFileMap_step f m = Some ?m'"
    using s fs by (simp add: buildFileMap_step_def m1_def[symmetric] Let_def)
  moreover have "slug_lists_ok ?m'"
    unfolding slug_lists_ok_def
  proof (intro allI impI)
    fix k gs assume h: "map_of ?m' k = Some gs"
    show "gs \<noteq> []"
    proof (cases "k = s")
      case True
      with h show ?thesis by (auto simp: map_of_update_key)
    next
      case False
      with h have "map_of m k = Some gs" by (simp add: map_of_update_key other)
      with assms show ?thesis by (auto simp: slug_lists_ok_def)
    qed
  qed
  ultimately show ?thesis by blast
qed

lemma for_each_buildFileMap:
  "slug_lists_ok m \<Longrightarrow> \<exists>m'. for_each buildFileMap_step files m = Some m' \<and> slug_lists_ok m'"
proof (induction files arbitrary: m)
  case Nil
  then show ?case by simp
next
  case (Cons f files)
  from buildFileMap_step_total[OF Cons.prems, of f] obtain m1 where
    "buildFileMap_step f m = Some m1" "slug_lists_ok m1" by blast
  with Cons.IH[of m1] show ?case by simp
qed

lemma buildFileMap_total: "\<exists>m. buildFileMap files = Some m \<and> slug_lists_ok m"
  unfolding buildFileMap_def by (rule for_each_buildFileMap) (simp add: slug_lists_ok_def)

lemma set_newSet: "set (foldl (\<lambda>s k. if k \<in> set s then s else s @ [k]) acc keys) = set acc \<union> set keys"
  by (induction keys arbitrary: acc) auto

lemma pairFor_total:
  assumes "slug_lists_ok m1" "slug_lists_ok m2" "s \<in> set (map fst m1) \<union> set (map fst m2)"
  shows "\<exists>p. pairFor m1 m2 s = Some p"
proof -
  have ne: "fs \<noteq> []" if "map_of m k = Some fs" "slug_lists_ok m" for m k fs
    using that by (auto simp: slug_lists_ok_def)
  have at0: "at fs 0 = Some (fs ! 0)" if "fs \<noteq> []" for fs :: "sourceFile list"
    using that by (simp add: at_def)
  show ?thesis
  proof (cases "map_of m1 s")
    case None
    then have "s \<notin> fst ` set m1" by (simp add: map_of_eq_None_iff)
    with assms(3) have "s \<in> fst ` set m2" by auto
    then obtain fs where fs: "map_of m2 s = Some fs"
      by (cases "map_of m2 s") (auto simp: map_of_eq_None_iff)
    with ne[OF fs assms(2)] None show ?thesis
      by (simp add: pairFor_def mapGet_def at0)
  next
    case (Some fs1)
    note n1 = ne[OF Some assms(1)]
    show ?thesis
    proof (cases "map_of m2 s")
      case None
      with Some n1 show ?thesis by (simp add: pairFor_def mapGet_def at0)
    next
      case (Some fs2)
      with \<open>map_of m1 s = Some fs1\<close> n1 ne[OF Some assms(2)] show ?thesis
        by (simp add: pairFor_def mapGet_def at0)
    qed
  qed
qed

lemma those_map_total: "\<forall>x \<in> set xs. \<exists>y. f x = Some y \<Longrightarrow> \<exists>ys. those (map f xs) = Some ys"
  by (induction xs) auto

lemma matchedPairs_total: "\<exists>pairs. matchedPairs cmp v1Files v2Files = Some pairs"
proof (cases "length v1Files = 0 \<and> length v2Files = 0")
  case True
  then show ?thesis by (simp add: matchedPairs_def)
next
  case False
  obtain m1 m2 where m: "buildFileMap v1Files = Some m1" "slug_lists_ok m1"
      "buildFileMap v2Files = Some m2" "slug_lists_ok m2"
    using buildFileMap_total by blast
  have "\<forall>s \<in> set (newSet (map fst m1 @ map fst m2)). \<exists>p. pairFor m1 m2 s = Some p"
    using pairFor_total[OF m(2) m(4)] by (simp add: newSet_def set_newSet)
  from those_map_total[OF this] obtain ps where
    "those (map (pairFor m1 m2) (newSet (map fst m1 @ map fst m2))) = Some ps" by blast
  with False m show ?thesis by (simp add: matchedPairs_def Let_def)
qed

lemma chunkifyDiff_total: "\<exists>chunks. chunkifyDiff d = Some chunks"
proof (cases d)
  case Nil
  then show ?thesis by (simp add: chunkifyDiff_def)
next
  case (Cons d0 ds)
  have "for_each (chunk_step d) [1..<length d] ([], \<lparr>chunk_type = line_type d0, chunk_lines = [d0]\<rparr>)
      = Some (foldl (\<lambda>st x. chunk_pure x st) ([], \<lparr>chunk_type = line_type d0, chunk_lines = [d0]\<rparr>) (map ((!) d) [1..<length d]))"
    by (rule for_each_chunk_step) simp
  then show ?thesis using Cons
    by (cases "foldl (\<lambda>st x. chunk_pure x st) ([], \<lparr>chunk_type = line_type d0, chunk_lines = [d0]\<rparr>) (map ((!) d) [1..<length d])")
       (simp add: chunkifyDiff_def at_def)
qed

lemma calculateDiff_total: "\<exists>diff. calculateDiff oldText newText = Some diff"
  using calculateDiff_reseq[of oldText newText] by blast

lemma backtrackLCS_total:
  "\<exists>t. buildLCSTable A B = Some t \<and> (\<exists>ops. backtrackLCS t A B makeOp = Some ops)"
proof -
  obtain t where t: "buildLCSTable A B = Some t" "table_shape A B t"
    using buildLCSTable_total by blast
  have "backtrackLCS t A B makeOp = Some (rev (walk t A B makeOp (length A) (length B)))"
    using backtrack_loop_walk[OF t(2), of "length A" "length B" makeOp "[]"]
    by (simp add: backtrackLCS_def)
  with t show ?thesis by blast
qed

lemma probe_None: "(at coalesced (int (length coalesced) - 1) = None) = (coalesced = [])"
  by (cases coalesced) (auto simp: at_def)

text \<open>
  Claim C10, as amended. For every input, \<open>getFileSlug\<close>, the matcher, \<open>calculateDiff\<close>,
  \<open>getWordDiff\<close>, \<open>chunkifyDiff\<close> and \<open>buildLCSTable\<close> followed by \<open>backtrackLCS\<close>
  return a result: no read or write whose value the code uses falls outside its array (so
  \<open>backtrackLCS\<close> reads \<open>oldArr[i-1]\<close> only when \<open>i > 0\<close>). The probe
  \<open>coalesced[coalesced.length - 1]\<close> of the coalescing loop is outside the array exactly
  when \<open>coalesced\<close> is empty; the code tests its result before using it.
\<close>

theorem engine_total:
  "(\<exists>s. getFileSlug p = Some s) \<and>
   (\<exists>pairs. matchedPairs localeCompare v1Files v2Files = Some pairs) \<and>
   (\<exists>diff. calculateDiff oldText newText = Some diff) \<and>
   (\<exists>segs. getWordDiff oldStr newStr = Some segs) \<and>
   (\<exists>chunks. chunkifyDiff d = Some chunks) \<and>
   (\<exists>t. buildLCSTable A B = Some t \<and> (\<exists>ops. backtrackLCS t A B makeOp = Some ops)) \<and>
   (at coalesced (int (length coalesced) - 1) = None) = (coalesced = [])"
  using getFileSlug_total matchedPairs_total calculateDiff_total getWordDiff_total chunkifyDiff_total
    backtrackLCS_total probe_None
  by (intro conjI)

lemma probe_values:
  "map_option (map pairedWith) (calculateDiff (Some ''a'') (Some ''b'')) = Some [Some 1, Some 0]"
  "getWordDiff ''a'' ''b'' = Some [\<lparr>seg_value = ''a'', seg_type = Removed\<rparr>, \<lparr>seg_value = ''b'', seg_type = Added\<rparr>]"
  "coalesce_reads [\<lparr>seg_value = ''a'', seg_type = Removed\<rparr>, \<lparr>seg_value = ''b'', seg_type = Added\<rparr>] = [(0, -1), (1, 0)]"
  by code_simp+

text \<open>
  The claim as stated, every sequence access in bounds, does not hold: diffing \<open>a\<close>
  against \<open>b\<close> pairs the two lines, and the first iteration of the coalescing loop over
  their two raw segments reads index \<open>-1\<close> of the empty array.
\<close>

theorem coalescing_probe_counterexample:
  "map_option (map pairedWith) (calculateDiff (Some ''a'') (Some ''b'')) = Some [Some 1, Some 0] \<and>
   getWordDiff ''a'' ''b'' = Some [\<lparr>seg_value = ''a'', seg_type = Removed\<rparr>, \<lparr>seg_value = ''b'', seg_type = Added\<rparr>] \<and>
   coalesce_reads [\<lparr>seg_value = ''a'', seg_type = Removed\<rparr>, \<lparr>seg_value = ''b'', seg_type = Added\<rparr>] = [(0, -1), (1, 0)] \<and>
   \<not> list_all in_bounds (coalesce_reads [\<lparr>seg_value = ''a'', seg_type = Removed\<rparr>, \<lparr>seg_value = ''b'', seg_type = Added\<rparr>])"
  unfolding probe_values by (simp add: in_bounds_def)

end
